theory Spec2Isabelle
  imports Complex_Main "HOL-Library.AList" "HOL-Library.Multiset" "HOL-Library.Sublist"
begin

section \<open>Scalable simple random sampling: a model of \<^verbatim>\<open>yelp_sampling\<close>\<close>

text \<open>
  The development follows \<^verbatim>\<open>scalable_srs.py\<close> and \<^verbatim>\<open>srs_sampling.py\<close> function by
  function. Conventions of the embedding:
  \<^item> a Python \<^verbatim>\<open>float\<close> is a \<^typ>\<open>real\<close>: rounding of floating-point arithmetic is not
    modelled, every other aspect of the arithmetic (truncation by \<^verbatim>\<open>int\<close>, the domain
    errors of \<^verbatim>\<open>math.log\<close> and \<^verbatim>\<open>math.sqrt\<close>, division by zero) is;
  \<^item> a \<^verbatim>\<open>dict\<close> is an association list with distinct keys, in insertion order (the
    order \<^verbatim>\<open>items()\<close> iterates in); \<^verbatim>\<open>d[k] = v\<close> is \<^const>\<open>AList.update\<close>;
  \<^item> an exception is a value \<open>Inl e\<close> of the result type;
  \<^item> \<^verbatim>\<open>random.Random(s)\<close> is a parameter \<open>rng\<close>: \<open>rng s j\<close> is the \<open>j\<close>-th variate that a
    generator seeded with \<open>s\<close> returns; \<^verbatim>\<open>time.time()\<close> is a parameter \<open>now\<close>;
  \<^item> an RDD is the list of its partitions, each the list of its rows;
  \<^item> the arithmetic is that of Python 3: \<^verbatim>\<open>/\<close> is true division, \<^verbatim>\<open>round\<close> and
    \<^verbatim>\<open>math.floor\<close> return integers.
\<close>

subsection \<open>Values and errors\<close>

datatype error =
    InvalidConfiguration
      \<comment> \<open>\<^verbatim>\<open>ValueError('Sum of sampled sets larger than source set.')\<close>\<close>
  | MathDomainError
      \<comment> \<open>\<^verbatim>\<open>ValueError\<close> of \<^verbatim>\<open>math.log\<close> or \<^verbatim>\<open>math.sqrt\<close> outside its domain\<close>
  | ZeroDivisionError
  | TypeError
  | KeyError
  | IndexError
  | EmptyRDD
      \<comment> \<open>\<^verbatim>\<open>ValueError\<close> of \<^verbatim>\<open>reduce\<close> on an RDD with no element\<close>

text \<open>A Python number keeps its type: \<^verbatim>\<open>heapq.nsmallest\<close> refuses a \<^verbatim>\<open>float\<close> count.\<close>

datatype num = PInt int | PFloat real

fun num_val :: "num \<Rightarrow> real" where
  "num_val (PInt i) = real_of_int i"
| "num_val (PFloat x) = x"

fun num_minus_int :: "num \<Rightarrow> int \<Rightarrow> num" where
  "num_minus_int (PInt i) c = PInt (i - c)"
| "num_minus_int (PFloat x) c = PFloat (x - real_of_int c)"

text \<open>\<^verbatim>\<open>int(x)\<close> of a float truncates towards zero.\<close>

definition py_int :: "real \<Rightarrow> int" where
  "py_int x = (if x < 0 then \<lceil>x\<rceil> else \<lfloor>x\<rfloor>)"

type_synonym threshold = "real \<times> real \<times> real"
type_synonym tally = "int \<times> real list"

subsection \<open>\<^verbatim>\<open>_set_up_set_sizes\<close>\<close>

text \<open>
  The first statement: every entry becomes an absolute integer size. In the reproportioning
  branch the division by the sum happens once per entry, so a sum of zero raises only when
  there is an entry to divide.
\<close>

definition absolute_sizes :: "(string \<times> real) list \<Rightarrow> real \<Rightarrow> (string \<times> int) list" where
  "absolute_sizes set_sizes count' =
     map (\<lambda>(k, v). (k, py_int (if v < 1 then v * count' else v))) set_sizes"

definition set_up_set_sizes ::
  "(string \<times> real) list \<Rightarrow> real \<Rightarrow> bool \<Rightarrow> error + (string \<times> num) list" where
  "set_up_set_sizes set_sizes count' reproportion =
     (let sizes = absolute_sizes set_sizes count';
          sampled_size = real_of_int (sum_list (map snd sizes))
      in if sampled_size > count' then
           (if reproportion then
              (if sampled_size = 0 \<and> sizes \<noteq> [] then Inl ZeroDivisionError
               else Inr (map (\<lambda>(k, v). (k, PFloat (real_of_int v * count' / sampled_size))) sizes))
            else Inl InvalidConfiguration)
         else Inr (map (\<lambda>(k, v). (k, PInt v)) sizes))"

subsection \<open>\<^verbatim>\<open>_compute_thresholds\<close>\<close>

definition compute_thresholds :: "real \<Rightarrow> real \<Rightarrow> real \<Rightarrow> error + (real \<times> real)" where
  "compute_thresholds ratio population_size delta =
     (if delta \<le> 0 then Inl MathDomainError
      else if population_size = 0 then Inl ZeroDivisionError
      else
        let gamma1 = - ln delta / population_size;
            gamma2 = - (2 * ln delta) / (3 * population_size);
            under_low = gamma2 ^ 2 + 3 * gamma2 * ratio;
            under_high = gamma1 ^ 2 + 2 * gamma1 * ratio
        in if under_low < 0 then Inl MathDomainError
           else if under_high < 0 then Inl MathDomainError
           else Inr (max 0 (ratio + gamma2 - sqrt under_low),
                     min 1 (ratio + gamma1 + sqrt under_high)))"

subsection \<open>\<^verbatim>\<open>_get_initial_thresholds\<close>\<close>

fun initial_thresholds_loop ::
  "(string \<times> num) list \<Rightarrow> real \<Rightarrow> real \<Rightarrow> real \<Rightarrow> (string \<times> threshold) list
     \<Rightarrow> error + (string \<times> threshold) list" where
  "initial_thresholds_loop [] count' delta offset thresholds = Inr thresholds"
| "initial_thresholds_loop ((set_name, set_size) # rest) count' delta offset thresholds =
     (if count' = 0 then Inl ZeroDivisionError
      else case compute_thresholds (num_val set_size / count') count' delta of
        Inl e \<Rightarrow> Inl e
      | Inr (q_low, q_high) \<Rightarrow>
          initial_thresholds_loop rest count' delta (offset + q_high)
            (AList.update set_name (offset, offset + q_low, offset + q_high) thresholds))"

definition get_initial_thresholds ::
  "(string \<times> num) list \<Rightarrow> real \<Rightarrow> real \<Rightarrow> error + (string \<times> threshold) list" where
  "get_initial_thresholds set_sizes count' delta =
     initial_thresholds_loop set_sizes count' delta 0 []"

subsection \<open>\<^verbatim>\<open>_threshold_accumulator\<close>\<close>

text \<open>The keys of one partition: one variate per row, in row order.\<close>

definition partition_keys :: "(int \<Rightarrow> nat \<Rightarrow> real) \<Rightarrow> int \<Rightarrow> int \<Rightarrow> 'r list \<Rightarrow> real list" where
  "partition_keys rng seed idx rows = map (rng (seed + idx)) [0..<length rows]"

text \<open>The inner loop over \<^verbatim>\<open>thresholds.items()\<close> for one key.\<close>

fun classify_key ::
  "real \<Rightarrow> (string \<times> threshold) list \<Rightarrow> (string \<times> tally) list \<Rightarrow> (string \<times> tally) list" where
  "classify_key key [] values = values"
| "classify_key key ((name, (low, accept, waitlist)) # rest) values =
     classify_key key rest
       (if key < low then values
        else if key < accept then AList.map_entry name (\<lambda>(c, w). (c + 1, w)) values
        else if key < waitlist then AList.map_entry name (\<lambda>(c, w). (c, w @ [key])) values
        else values)"

definition threshold_accumulator ::
  "(int \<Rightarrow> nat \<Rightarrow> real) \<Rightarrow> int \<Rightarrow> 'r list \<Rightarrow> (string \<times> threshold) list \<Rightarrow> int
     \<Rightarrow> (string \<times> tally) list" where
  "threshold_accumulator rng idx rows thresholds seed =
     fold (\<lambda>key values. classify_key key thresholds values)
       (partition_keys rng seed idx rows)
       (map (\<lambda>(name, _). (name, (0, []))) thresholds)"

subsection \<open>\<^verbatim>\<open>_dict_addition_reducer\<close> and the reduce of the RDD\<close>

definition dict_addition_reducer ::
  "(string \<times> tally) list \<Rightarrow> (string \<times> tally) list \<Rightarrow> (string \<times> tally) list" where
  "dict_addition_reducer a b =
     fold (\<lambda>(name, value) a.
            case map_of a name of
              None \<Rightarrow> AList.update name value a
            | Some (c, w) \<Rightarrow> AList.update name (c + fst value, w @ snd value) a)
       b a"

text \<open>
  \<^verbatim>\<open>RDD.reduce(f)\<close> folds the per-partition results from the left, in partition order,
  and raises on an RDD without elements.
\<close>

fun rdd_reduce :: "('a \<Rightarrow> 'a \<Rightarrow> 'a) \<Rightarrow> 'a list \<Rightarrow> error + 'a" where
  "rdd_reduce f [] = Inl EmptyRDD"
| "rdd_reduce f (x # xs) = Inr (foldl f x xs)"

subsection \<open>\<^verbatim>\<open>_get_final_thresholds\<close>\<close>

text \<open>\<^verbatim>\<open>heapq.nsmallest(n, xs)\<close> is \<^verbatim>\<open>sorted(xs)[:n]\<close>.\<close>

definition nsmallest :: "nat \<Rightarrow> real list \<Rightarrow> real list" where
  "nsmallest n xs = take n (sort xs)"

text \<open>The body of the loop: the final interval of one set.\<close>

definition final_threshold :: "num \<Rightarrow> tally \<Rightarrow> threshold \<Rightarrow> error + (real \<times> real)" where
  "final_threshold size' tally thr =
     (case tally of (count', waitlist) \<Rightarrow>
      case thr of (low, accept, cutoff) \<Rightarrow>
        (let required = num_minus_int size' count';
             waitlist_count = length waitlist
         in if num_val required \<le> 0 then Inr (low, accept)
            else if num_val required \<ge> real waitlist_count then Inr (low, cutoff)
            else
              (case required of
                 PFloat _ \<Rightarrow> Inl TypeError
               | PInt r \<Rightarrow>
                  (case nsmallest (nat (r + 1)) waitlist of
                     [] \<Rightarrow> Inl IndexError
                   | s # ss \<Rightarrow> Inr (low, last (s # ss))))))"

fun final_thresholds_loop ::
  "(string \<times> num) list \<Rightarrow> (string \<times> tally) list \<Rightarrow> (string \<times> threshold) list
     \<Rightarrow> (string \<times> real \<times> real) list \<Rightarrow> error + (string \<times> real \<times> real) list" where
  "final_thresholds_loop [] counts thresholds final_thresholds = Inr final_thresholds"
| "final_thresholds_loop ((name, size') # rest) counts thresholds final_thresholds =
     (case map_of counts name of
        None \<Rightarrow> Inl KeyError
      | Some tally \<Rightarrow>
         (case map_of thresholds name of
            None \<Rightarrow> Inl KeyError
          | Some thr \<Rightarrow>
             (case final_threshold size' tally thr of
                Inl e \<Rightarrow> Inl e
              | Inr interval \<Rightarrow>
                  final_thresholds_loop rest counts thresholds
                    (AList.update name interval final_thresholds))))"

definition get_final_thresholds ::
  "(string \<times> tally) list \<Rightarrow> (string \<times> num) list \<Rightarrow> (string \<times> threshold) list
     \<Rightarrow> error + (string \<times> real \<times> real) list" where
  "get_final_thresholds counts set_sizes thresholds =
     final_thresholds_loop set_sizes counts thresholds []"

subsection \<open>\<^verbatim>\<open>_threshold_mapper\<close>\<close>

text \<open>The inner loop for one key: the first set whose interval holds the key, then \<^verbatim>\<open>break\<close>.\<close>

fun match_set :: "real \<Rightarrow> (string \<times> real \<times> real) list \<Rightarrow> string option" where
  "match_set key [] = None"
| "match_set key ((name, (low, high)) # rest) =
     (if key < low then match_set key rest
      else if key < high then Some name
      else match_set key rest)"

definition threshold_mapper ::
  "(int \<Rightarrow> nat \<Rightarrow> real) \<Rightarrow> int \<Rightarrow> 'r list \<Rightarrow> (string \<times> real \<times> real) list \<Rightarrow> int
     \<Rightarrow> (string \<times> 'r) list" where
  "threshold_mapper rng idx rows thresholds seed =
     List.map_filter
       (\<lambda>(key, row). map_option (\<lambda>name. (name, row)) (match_set key thresholds))
       (zip (partition_keys rng seed idx rows) rows)"

subsection \<open>\<^verbatim>\<open>scalable_srs\<close>\<close>

text \<open>\<^verbatim>\<open>count or rdd.count()\<close> and \<^verbatim>\<open>seed or time.time()\<close>: \<^verbatim>\<open>None\<close> and zero are both false.\<close>

definition resolve_count :: "real option \<Rightarrow> 'r list list \<Rightarrow> real" where
  "resolve_count count' rdd =
     (case count' of
        Some c \<Rightarrow> if c \<noteq> 0 then c else real (length (concat rdd))
      | None \<Rightarrow> real (length (concat rdd)))"

definition resolve_seed :: "real option \<Rightarrow> real \<Rightarrow> int" where
  "resolve_seed seed now =
     py_int (case seed of Some s \<Rightarrow> if s \<noteq> 0 then s else now | None \<Rightarrow> now)"

definition map_partitions_with_index :: "(int \<Rightarrow> 'r list \<Rightarrow> 'b) \<Rightarrow> 'r list list \<Rightarrow> 'b list" where
  "map_partitions_with_index f rdd = map (\<lambda>(idx, rows). f (int idx) rows) (enumerate 0 rdd)"

definition global_counts ::
  "(int \<Rightarrow> nat \<Rightarrow> real) \<Rightarrow> 'r list list \<Rightarrow> (string \<times> threshold) list \<Rightarrow> int
     \<Rightarrow> error + (string \<times> tally) list" where
  "global_counts rng rdd thresholds seed =
     rdd_reduce dict_addition_reducer
       (map_partitions_with_index
          (\<lambda>idx rows. threshold_accumulator rng idx rows thresholds seed) rdd)"

definition scalable_srs ::
  "(int \<Rightarrow> nat \<Rightarrow> real) \<Rightarrow> real \<Rightarrow> 'r list list \<Rightarrow> (string \<times> real) list \<Rightarrow> real option
     \<Rightarrow> real \<Rightarrow> real option \<Rightarrow> bool \<Rightarrow> error + (string \<times> 'r) list list" where
  "scalable_srs rng now rdd set_sizes count' delta seed reproportion =
     (let count' = resolve_count count' rdd;
          seed = resolve_seed seed now
      in case set_up_set_sizes set_sizes count' reproportion of
           Inl e \<Rightarrow> Inl e
         | Inr set_sizes \<Rightarrow>
         (case get_initial_thresholds set_sizes count' delta of
           Inl e \<Rightarrow> Inl e
         | Inr thresholds \<Rightarrow>
         (case global_counts rng rdd thresholds seed of
           Inl e \<Rightarrow> Inl e
         | Inr counts \<Rightarrow>
         (case get_final_thresholds counts set_sizes thresholds of
           Inl e \<Rightarrow> Inl e
         | Inr final_thresholds \<Rightarrow>
             Inr (map_partitions_with_index
                    (\<lambda>idx rows. threshold_mapper rng idx rows final_thresholds seed) rdd)))))"

section \<open>The train/test variant: \<^verbatim>\<open>srs_sampling.py\<close>\<close>

text \<open>
  The module-level \<^verbatim>\<open>random.seed(s)\<close> and \<^verbatim>\<open>random.random()\<close> drive one hidden generator;
  a partition seeds it and then draws one variate per row, so its keys are again
  \<open>partition_keys\<close>. The three Spark accumulators are a record that is passed from
  partition to partition, in partition order.
\<close>

subsection \<open>\<^verbatim>\<open>filter_ad_events\<close>\<close>

text \<open>The lower threshold of the train filter is \<^verbatim>\<open>float('-inf')\<close>.\<close>

datatype lower_threshold = MinusInfinity | Finite real

fun above :: "real \<Rightarrow> lower_threshold \<Rightarrow> bool" where
  "above random_key MinusInfinity = True"
| "above random_key (Finite lower_theshold) = (random_key > lower_theshold)"

definition passes :: "real \<Rightarrow> lower_threshold \<Rightarrow> real \<Rightarrow> bool" where
  "passes random_key lower_theshold upper_theshold =
     (random_key < upper_theshold \<and> above random_key lower_theshold)"

definition filter_ad_events ::
  "(int \<Rightarrow> nat \<Rightarrow> real) \<Rightarrow> int \<Rightarrow> 'r list \<Rightarrow> lower_threshold \<Rightarrow> real \<Rightarrow> int \<Rightarrow> 'r list" where
  "filter_ad_events rng idx ad_events lower_theshold upper_theshold seed =
     map snd
       (filter (\<lambda>(random_key, ad_event). passes random_key lower_theshold upper_theshold)
          (zip (partition_keys rng seed idx ad_events) ad_events))"

subsection \<open>\<^verbatim>\<open>select_train_test_ad_events\<close>\<close>

record accumulators =
  train_accepted_items :: int
  test_accepted_items :: int
  train_waitlist :: "real list"

text \<open>The loop over the rows of a partition: what it yields, and the accumulators after it.\<close>

fun select_keys ::
  "real list \<Rightarrow> real \<Rightarrow> real \<Rightarrow> real \<Rightarrow> real \<Rightarrow> accumulators \<Rightarrow> real list \<times> accumulators" where
  "select_keys [] train_q1 train_q2 test_q1 test_q2 accs = ([], accs)"
| "select_keys (random_key # rest) train_q1 train_q2 test_q1 test_q2 accs =
     (let accs1 =
            (if random_key < train_q2 then
               accs\<lparr>train_accepted_items := train_accepted_items accs + 1\<rparr>
             else if random_key < train_q1 then
               accs\<lparr>train_waitlist := train_waitlist accs @ [random_key]\<rparr>
             else accs);
          accs2 =
            (if random_key < test_q2 then
               accs1\<lparr>test_accepted_items := test_accepted_items accs1 + 1\<rparr>
             else accs1);
          yielded =
            (if random_key < test_q2 then []
             else if random_key < test_q1 then [random_key]
             else [])
      in case select_keys rest train_q1 train_q2 test_q1 test_q2 accs2 of
           (later, accs3) \<Rightarrow> (yielded @ later, accs3))"

definition select_train_test_ad_events ::
  "(int \<Rightarrow> nat \<Rightarrow> real) \<Rightarrow> int \<Rightarrow> 'r list \<Rightarrow> real \<Rightarrow> real \<Rightarrow> real \<Rightarrow> real \<Rightarrow> int
     \<Rightarrow> accumulators \<Rightarrow> real list \<times> accumulators" where
  "select_train_test_ad_events rng idx ad_events train_q1 train_q2 test_q1 test_q2 seed accs =
     select_keys (partition_keys rng seed idx ad_events) train_q1 train_q2 test_q1 test_q2 accs"

subsection \<open>\<^verbatim>\<open>compute_selection_waitlist_thresholds\<close>\<close>

definition compute_selection_waitlist_thresholds :: "real \<Rightarrow> real \<Rightarrow> error + (real \<times> real)" where
  "compute_selection_waitlist_thresholds approx_pop_size sample_size =
     (if approx_pop_size = 0 then Inl ZeroDivisionError
      else
        let t1 = 20 / (3 * approx_pop_size);
            t2 = 10 / approx_pop_size;
            sampling_prob = sample_size / approx_pop_size
        in if t1 * t1 + 3 * t1 * sampling_prob < 0 then Inl MathDomainError
           else if t2 * t2 + 2 * t2 * sampling_prob < 0 then Inl MathDomainError
           else
             (let q2 = max 0 (sampling_prob + t1 - sqrt (t1 * t1 + 3 * t1 * sampling_prob));
                  q1 = min 1 (sampling_prob + t2 + sqrt (t2 * t2 + 2 * t2 * sampling_prob))
              in Inr (q1, q2)))"

subsection \<open>\<^verbatim>\<open>compute_acceptance_rejection_thresholds\<close>\<close>

definition compute_acceptance_rejection_thresholds ::
  "int \<Rightarrow> real list \<Rightarrow> real \<Rightarrow> real \<Rightarrow> error + (real \<times> real)" where
  "compute_acceptance_rejection_thresholds num_waitlist_accepted waitlist q1 q2 =
     (if num_waitlist_accepted > int (length waitlist) then Inr (q1, q1)
      else if num_waitlist_accepted > 0 then
        (let sorted_waitlist = nsmallest (nat (num_waitlist_accepted + 1)) waitlist
         in if length sorted_waitlist < 2 then Inl IndexError
            else Inr (sorted_waitlist ! (length sorted_waitlist - 1),
                      sorted_waitlist ! (length sorted_waitlist - 2)))
      else Inr (q2, q2))"

subsection \<open>\<^verbatim>\<open>sample_train_test_split\<close>\<close>

text \<open>\<^verbatim>\<open>round\<close> of a float rounds half to even.\<close>

definition py_round :: "real \<Rightarrow> int" where
  "py_round x =
     (let f = \<lfloor>x\<rfloor>; d = x - real_of_int f
      in if d < 1 / 2 then f else if 1 / 2 < d then f + 1 else if even f then f else f + 1)"

text \<open>The first pass over all partitions: the collected yields and the accumulators.\<close>

fun select_partitions ::
  "(int \<Rightarrow> nat \<Rightarrow> real) \<Rightarrow> (nat \<times> 'r list) list \<Rightarrow> real \<Rightarrow> real \<Rightarrow> real \<Rightarrow> real \<Rightarrow> int
     \<Rightarrow> accumulators \<Rightarrow> real list \<times> accumulators" where
  "select_partitions rng [] train_q1 train_q2 test_q1 test_q2 seed accs = ([], accs)"
| "select_partitions rng ((idx, ad_events) # rest) train_q1 train_q2 test_q1 test_q2 seed accs =
     (case select_train_test_ad_events rng (int idx) ad_events train_q1 train_q2 test_q1 test_q2
             seed accs of
        (yielded, accs1) \<Rightarrow>
          (case select_partitions rng rest train_q1 train_q2 test_q1 test_q2 seed accs1 of
             (later, accs2) \<Rightarrow> (yielded @ later, accs2)))"

text \<open>
  The sizes after the optional rescaling, and the three thresholds that the output
  filters are called with: the upper threshold of the train filter, and the lower and
  upper thresholds of the test filter.
\<close>

definition rescaled_sizes :: "real \<Rightarrow> real \<Rightarrow> real \<Rightarrow> real \<times> real" where
  "rescaled_sizes train_size test_size ad_event_count =
     (let sample_size = train_size + test_size
      in if sample_size > ad_event_count then
           (real_of_int \<lfloor>(train_size / sample_size) * ad_event_count\<rfloor>,
            real_of_int \<lfloor>(test_size / sample_size) * ad_event_count\<rfloor>)
         else (train_size, test_size))"

definition split_thresholds ::
  "(int \<Rightarrow> nat \<Rightarrow> real) \<Rightarrow> real \<Rightarrow> real \<Rightarrow> real \<Rightarrow> 'r list list \<Rightarrow> error + (real \<times> real \<times> real)" where
  "split_thresholds rng now train_size test_size input_logs =
     (let seed = py_round now;
          ad_event_count = real (length (concat input_logs))
      in case rescaled_sizes train_size test_size ad_event_count of
        (train_size, test_size) \<Rightarrow>
      (case compute_selection_waitlist_thresholds ad_event_count train_size of
         Inl e \<Rightarrow> Inl e
       | Inr (train_q1, train_q2) \<Rightarrow>
      (case compute_selection_waitlist_thresholds ad_event_count (train_size + test_size) of
         Inl e \<Rightarrow> Inl e
       | Inr (test_q1, test_q2) \<Rightarrow>
      (case select_partitions rng (enumerate 0 input_logs) train_q1 train_q2 test_q1 test_q2 seed
              \<lparr>train_accepted_items = 0, test_accepted_items = 0, train_waitlist = []\<rparr> of
         (test_waitlist, accs) \<Rightarrow>
      (case compute_acceptance_rejection_thresholds
              (py_int train_size - train_accepted_items accs) (train_waitlist accs)
              train_q1 train_q2 of
         Inl e \<Rightarrow> Inl e
       | Inr (train_upper_threshold, test_lower_threshold) \<Rightarrow>
      (case compute_acceptance_rejection_thresholds
              (py_int (train_size + test_size) - test_accepted_items accs) test_waitlist
              test_q1 test_q2 of
         Inl e \<Rightarrow> Inl e
       | Inr (test_upper_threshold, _) \<Rightarrow>
           Inr (train_upper_threshold, test_lower_threshold, test_upper_threshold)))))))"

text \<open>The two saved outputs: the train partitions and the test partitions.\<close>

definition sample_train_test_split ::
  "(int \<Rightarrow> nat \<Rightarrow> real) \<Rightarrow> real \<Rightarrow> real \<Rightarrow> real \<Rightarrow> 'r list list
     \<Rightarrow> error + ('r list list \<times> 'r list list)" where
  "sample_train_test_split rng now train_size test_size input_logs =
     (case split_thresholds rng now train_size test_size input_logs of
        Inl e \<Rightarrow> Inl e
      | Inr (train_upper_threshold, test_lower_threshold, test_upper_threshold) \<Rightarrow>
          Inr (map_partitions_with_index
                 (\<lambda>idx x. filter_ad_events rng idx x MinusInfinity train_upper_threshold
                    (py_round now)) input_logs,
               map_partitions_with_index
                 (\<lambda>idx x. filter_ad_events rng idx x (Finite test_lower_threshold)
                    test_upper_threshold (py_round now)) input_logs))"

section \<open>Notions for the properties\<close>

subsection \<open>The thresholds as the specification writes them\<close>

text \<open>
  The formulas of the specification's threshold calculator, to compare
  \<open>compute_thresholds\<close> with.
\<close>

definition spec_gamma1 :: "real \<Rightarrow> real \<Rightarrow> real" where
  "spec_gamma1 \<delta> N = - ln \<delta> / N"

definition spec_gamma2 :: "real \<Rightarrow> real \<Rightarrow> real" where
  "spec_gamma2 \<delta> N = - (2 * ln \<delta>) / (3 * N)"

definition spec_q_low :: "real \<Rightarrow> real \<Rightarrow> real \<Rightarrow> real" where
  "spec_q_low p N \<delta> =
     max 0 (p + spec_gamma2 \<delta> N - sqrt ((spec_gamma2 \<delta> N)\<^sup>2 + 3 * spec_gamma2 \<delta> N * p))"

definition spec_q_high :: "real \<Rightarrow> real \<Rightarrow> real \<Rightarrow> real" where
  "spec_q_high p N \<delta> =
     min 1 (p + spec_gamma1 \<delta> N + sqrt ((spec_gamma1 \<delta> N)\<^sup>2 + 2 * spec_gamma1 \<delta> N * p))"

subsection \<open>The interval allocation as the specification writes it\<close>

text \<open>
  Set \<open>i\<close> occupies \<open>[offset\<^sub>i, offset\<^sub>i + q_low)\<close> as its accept zone and
  \<open>[offset\<^sub>i + q_low, offset\<^sub>i + q_high)\<close> as its waitlist zone, where \<open>offset\<^sub>i\<close> is the sum
  of the \<open>q_high\<close> of the preceding sets.
\<close>

fun spec_intervals ::
  "real \<Rightarrow> (string \<times> num) list \<Rightarrow> real \<Rightarrow> real \<Rightarrow> (string \<times> threshold) list" where
  "spec_intervals offset [] N \<delta> = []"
| "spec_intervals offset ((name, size') # rest) N \<delta> =
     (name, (offset,
             offset + spec_q_low (num_val size' / N) N \<delta>,
             offset + spec_q_high (num_val size' / N) N \<delta>))
       # spec_intervals (offset + spec_q_high (num_val size' / N) N \<delta>) rest N \<delta>"

text \<open>The keys that the first pass counts or waitlists for a set: its two zones together.\<close>

definition zone :: "threshold \<Rightarrow> real set" where
  "zone thr = (case thr of (low, accept, cutoff) \<Rightarrow> {key. low \<le> key \<and> key < cutoff})"

text \<open>
  Thresholds laid out from an offset onwards: every set starts where the one before it
  ends, and its bounds are in order.
\<close>

fun laid_out :: "real \<Rightarrow> (string \<times> threshold) list \<Rightarrow> bool" where
  "laid_out offset [] = True"
| "laid_out offset ((name, (low, accept, cutoff)) # rest) =
     (low = offset \<and> low \<le> accept \<and> accept \<le> cutoff \<and> laid_out cutoff rest)"

subsection \<open>The two passes, set by set\<close>

text \<open>
  The effect of the \<^verbatim>\<open>if\<close>/\<^verbatim>\<open>elif\<close> chain of the first pass on the tally of one set, the
  tally that a list of keys leaves for a set, and the keys of the whole RDD in partition
  order.
\<close>

definition classify :: "real \<Rightarrow> threshold \<Rightarrow> tally \<Rightarrow> tally" where
  "classify key thr tally =
     (case thr of (low, accept, waitlist) \<Rightarrow>
      case tally of (c, w) \<Rightarrow>
        if key < low then (c, w)
        else if key < accept then (c + 1, w)
        else if key < waitlist then (c, w @ [key])
        else (c, w))"

definition expected_tally :: "real list \<Rightarrow> threshold \<Rightarrow> tally" where
  "expected_tally keys thr = fold (\<lambda>key. classify key thr) keys (0, [])"

definition all_keys :: "(int \<Rightarrow> nat \<Rightarrow> real) \<Rightarrow> int \<Rightarrow> 'r list list \<Rightarrow> real list" where
  "all_keys rng seed rdd =
     concat (map (\<lambda>(idx, rows). partition_keys rng seed (int idx) rows) (enumerate 0 rdd))"

text \<open>Final intervals in increasing order: each starts no earlier than the one before ends.\<close>

fun ordered :: "real \<Rightarrow> (string \<times> real \<times> real) list \<Rightarrow> bool" where
  "ordered offset [] = True"
| "ordered offset ((name, (low, high)) # rest) =
     (offset \<le> low \<and> low \<le> high \<and> ordered high rest)"

subsection \<open>A generator for a sample run\<close>

text \<open>
  The first three variates of \<^verbatim>\<open>random.Random(4106)\<close> and of \<^verbatim>\<open>random.Random(4107)\<close>, as
  exact fractions: the keys of two partitions of three rows under the seed \<open>4106\<close>.
\<close>

definition seeded_4106 :: "int \<Rightarrow> nat \<Rightarrow> real" where
  "seeded_4106 s j =
     (if s = 4106 then
        [3171268416816275 / 9007199254740992, 810902139770241 / 1125899906842624,
         253099487124403 / 562949953421312] ! j
      else
        [198235824776649 / 562949953421312, 329684317425895 / 9007199254740992,
         6236116485676121 / 9007199254740992] ! j)"

subsection \<open>The merge as the specification writes it\<close>

text \<open>
  What the specification says a merge holds for one set name: the tally of whichever side
  has the name, and for a name on both sides the sum of the accepted counts and the
  concatenation of the waitlisted keys.
\<close>

fun spec_merge :: "tally option \<Rightarrow> tally option \<Rightarrow> tally option" where
  "spec_merge None y = y"
| "spec_merge (Some x) None = Some x"
| "spec_merge (Some (ca, wa)) (Some (cb, wb)) = Some (ca + cb, wa @ wb)"

section \<open>Properties\<close>

subsection \<open>Size normalisation\<close>

lemma py_int_trunc: "py_int x = (if x < 0 then - \<lfloor>\<bar>x\<bar>\<rfloor> else \<lfloor>\<bar>x\<bar>\<rfloor>)"
  by (auto simp: py_int_def ceiling_def)

text \<open>
  Claim C4. Size normalisation fails with the configuration error exactly when the sum of
  the absolute target sizes exceeds the population size and reproportioning is off, and
  \<open>scalable_srs\<close> then returns that error rather than any output.
\<close>

theorem set_up_set_sizes_invalid_iff:
  "(set_up_set_sizes set_sizes c reproportion = Inl InvalidConfiguration
      \<longleftrightarrow> c < real_of_int (sum_list (map snd (absolute_sizes set_sizes c))) \<and> \<not> reproportion)
   \<and> (set_up_set_sizes set_sizes (resolve_count cnt rdd) reproportion = Inl InvalidConfiguration
      \<longrightarrow> scalable_srs rng now rdd set_sizes cnt delta seed reproportion = Inl InvalidConfiguration)"
  by (simp add: set_up_set_sizes_def scalable_srs_def Let_def)

theorem set_up_set_sizes_invalid_witness:
  "set_up_set_sizes [(''train'', 600), (''test'', 500)] 1000 False = Inl InvalidConfiguration
   \<and> scalable_srs (\<lambda>s j. 0) 0 ([] :: nat list list) [(''train'', 600), (''test'', 500)] (Some 1000)
        (5 / 100000) (Some 42) False = Inl InvalidConfiguration"
  using set_up_set_sizes_invalid_iff [of "[(''train'', 600), (''test'', 500)]" 1000 False
      "Some 1000" "[] :: nat list list" "\<lambda>s j. 0" 0 "5 / 100000" "Some 42"]
  by (simp add: absolute_sizes_def py_int_def resolve_count_def)





subsection \<open>The threshold formulas\<close>

lemma spec_gamma_pos:
  assumes "0 < N" and "0 < \<delta>" and "\<delta> < 1"
  shows "0 < spec_gamma1 \<delta> N" and "0 < spec_gamma2 \<delta> N"
proof -
  from assms have "ln \<delta> < 0" by simp
  with assms(1) show "0 < spec_gamma1 \<delta> N" and "0 < spec_gamma2 \<delta> N"
    by (simp_all add: spec_gamma1_def spec_gamma2_def divide_neg_pos)
qed

lemma compute_thresholds_eq:
  assumes "0 \<le> p" and "0 < N" and "0 < \<delta>" and "\<delta> < 1"
  shows "compute_thresholds p N \<delta> = Inr (spec_q_low p N \<delta>, spec_q_high p N \<delta>)"
proof -
  from assms have g: "0 < spec_gamma1 \<delta> N" "0 < spec_gamma2 \<delta> N"
    by (simp_all add: spec_gamma_pos)
  have "0 \<le> (spec_gamma2 \<delta> N)\<^sup>2 + 3 * spec_gamma2 \<delta> N * p"
    using g assms(1) by simp
  moreover have "0 \<le> (spec_gamma1 \<delta> N)\<^sup>2 + 2 * spec_gamma1 \<delta> N * p"
    using g assms(1) by simp
  ultimately show ?thesis
    using assms
    by (simp add: compute_thresholds_def Let_def spec_q_low_def spec_q_high_def
        spec_gamma1_def spec_gamma2_def)
qed

text \<open>
  Claim C6. For a sampling ratio \<open>p \<ge> 0\<close>, a population size \<open>N > 0\<close> and an error
  bound \<open>\<delta>\<close> in \<open>(0, 1)\<close>, \<open>compute_thresholds\<close> raises nothing and returns exactly
  the pair of the specification's formulas.
\<close>

theorem compute_thresholds_spec:
  assumes "0 \<le> p" and "0 < N" and "0 < \<delta>" and "\<delta> < 1"
  shows "compute_thresholds p N \<delta> = Inr (spec_q_low p N \<delta>, spec_q_high p N \<delta>)"
  using assms by (rule compute_thresholds_eq)

theorem compute_thresholds_spec_witness:
  "compute_thresholds (1 / 10) 1000 (5 / 100000)
     = Inr (spec_q_low (1 / 10) 1000 (5 / 100000), spec_q_high (1 / 10) 1000 (5 / 100000))"
  using compute_thresholds_spec [of "1 / 10" 1000 "5 / 100000"] by simp

subsection \<open>The seed\<close>

text \<open>
  Claim C9, at the seed \<open>0\<close>. A caller-supplied seed \<open>0\<close> is false in
  \<^verbatim>\<open>seed or time.time()\<close>: the pipeline runs on the truncated wall-clock time, exactly
  as if no seed had been supplied.
\<close>

theorem seed_zero_replaced_by_clock:
  "resolve_seed (Some 0) now = py_int now
   \<and> scalable_srs rng now rdd set_sizes cnt delta (Some 0) reproportion
     = scalable_srs rng now rdd set_sizes cnt delta None reproportion"
  by (simp add: resolve_seed_def scalable_srs_def)

subsection \<open>The initial thresholds\<close>

lemma update_fresh: "k \<notin> fst ` set al \<Longrightarrow> AList.update k v al = al @ [(k, v)]"
  by (induction al) auto

lemma spec_q_low_bounds:
  assumes "0 \<le> p" and "0 < N" and "0 < \<delta>" and "\<delta> < 1"
  shows "0 \<le> spec_q_low p N \<delta>" and "spec_q_low p N \<delta> \<le> p"
proof -
  show "0 \<le> spec_q_low p N \<delta>" by (simp add: spec_q_low_def)
  from assms have g: "0 < spec_gamma2 \<delta> N" by (simp add: spec_gamma_pos)
  then have "(spec_gamma2 \<delta> N)\<^sup>2 \<le> (spec_gamma2 \<delta> N)\<^sup>2 + 3 * spec_gamma2 \<delta> N * p"
    using assms(1) by simp
  then have "sqrt ((spec_gamma2 \<delta> N)\<^sup>2) \<le> sqrt ((spec_gamma2 \<delta> N)\<^sup>2 + 3 * spec_gamma2 \<delta> N * p)"
    by (rule real_sqrt_le_mono)
  with g have "spec_gamma2 \<delta> N \<le> sqrt ((spec_gamma2 \<delta> N)\<^sup>2 + 3 * spec_gamma2 \<delta> N * p)"
    by simp
  with assms(1) show "spec_q_low p N \<delta> \<le> p" by (simp add: spec_q_low_def)
qed

lemma spec_q_high_bounds:
  assumes "0 \<le> p" and "0 < N" and "0 < \<delta>" and "\<delta> < 1"
  shows "min 1 p \<le> spec_q_high p N \<delta>" and "spec_q_high p N \<delta> \<le> 1"
    and "min 1 (p + spec_gamma1 \<delta> N) \<le> spec_q_high p N \<delta>"
proof -
  from assms have g: "0 < spec_gamma1 \<delta> N" by (simp add: spec_gamma_pos)
  define r where "r = sqrt ((spec_gamma1 \<delta> N)\<^sup>2 + 2 * spec_gamma1 \<delta> N * p)"
  have r: "0 \<le> r" using g assms(1) by (simp add: r_def)
  have q: "spec_q_high p N \<delta> = min 1 (p + spec_gamma1 \<delta> N + r)"
    by (simp add: spec_q_high_def r_def)
  from g r show "min 1 p \<le> spec_q_high p N \<delta>"
    and "min 1 (p + spec_gamma1 \<delta> N) \<le> spec_q_high p N \<delta>"
    unfolding q by linarith+
  show "spec_q_high p N \<delta> \<le> 1" by (simp add: spec_q_high_def)
qed

lemma initial_thresholds_loop_spec:
  assumes "0 < c" and "0 < \<delta>" and "\<delta> < 1"
  shows "distinct (map fst ss) \<Longrightarrow> fst ` set ss \<inter> fst ` set ac = {} \<Longrightarrow>
     \<forall>(n, s) \<in> set ss. 0 \<le> num_val s \<Longrightarrow>
     initial_thresholds_loop ss c \<delta> offset ac = Inr (ac @ spec_intervals offset ss c \<delta>)"
proof (induction ss arbitrary: offset ac)
  case Nil
  show ?case by simp
next
  case (Cons x ss)
  obtain name sz where x: "x = (name, sz)" by (cases x)
  from Cons.prems x have p: "0 \<le> num_val sz / c" using assms(1) by simp
  let ?p = "num_val sz / c"
  let ?t = "(offset, offset + spec_q_low ?p c \<delta>, offset + spec_q_high ?p c \<delta>)"
  from Cons.prems x have fresh: "name \<notin> fst ` set ac" by auto
  have d: "distinct (map fst ss)" using Cons.prems by simp
  have i: "fst ` set ss \<inter> fst ` set (ac @ [(name, ?t)]) = {}"
    using Cons.prems x by auto
  have nn: "\<forall>(n, s) \<in> set ss. 0 \<le> num_val s" using Cons.prems by simp
  have "initial_thresholds_loop (x # ss) c \<delta> offset ac
      = initial_thresholds_loop ss c \<delta> (offset + spec_q_high ?p c \<delta>) (ac @ [(name, ?t)])"
    using assms p by (simp add: x compute_thresholds_eq update_fresh [OF fresh])
  also have "\<dots> = Inr ((ac @ [(name, ?t)]) @ spec_intervals (offset + spec_q_high ?p c \<delta>) ss c \<delta>)"
    by (rule Cons.IH [OF d i nn])
  finally show ?case by (simp add: x)
qed

lemma laid_out_spec_intervals:
  assumes "0 < c" and "0 < \<delta>" and "\<delta> < 1"
  shows "\<forall>(n, s) \<in> set ss. 0 \<le> num_val s \<and> num_val s \<le> c \<Longrightarrow>
     laid_out offset (spec_intervals offset ss c \<delta>)"
proof (induction ss arbitrary: offset)
  case Nil
  show ?case by simp
next
  case (Cons x ss)
  obtain name sz where x: "x = (name, sz)" by (cases x)
  from Cons.prems x assms(1) have p: "0 \<le> num_val sz / c" "num_val sz / c \<le> 1" by simp_all
  have "spec_q_low (num_val sz / c) c \<delta> \<le> num_val sz / c"
    using p assms by (simp add: spec_q_low_bounds)
  moreover have "num_val sz / c \<le> spec_q_high (num_val sz / c) c \<delta>"
    using spec_q_high_bounds(1) [OF p(1) assms] p(2) by simp
  moreover have "0 \<le> spec_q_low (num_val sz / c) c \<delta>"
    using p assms by (simp add: spec_q_low_bounds)
  ultimately show ?case using Cons by (simp add: x)
qed

lemma map_fst_spec_intervals: "map fst (spec_intervals offset ss c \<delta>) = map fst ss"
  by (induction ss arbitrary: offset) auto


lemma get_initial_thresholds_spec:
  assumes "0 < c" and "0 < \<delta>" and "\<delta> < 1"
    and "distinct (map fst ss)"
    and "\<forall>(n, s) \<in> set ss. 0 \<le> num_val s"
  shows "get_initial_thresholds ss c \<delta> = Inr (spec_intervals 0 ss c \<delta>)"
  unfolding get_initial_thresholds_def
  using initial_thresholds_loop_spec [OF assms(1,2,3,4) _ assms(5), of "[]" 0] by simp

lemma ln_default_delta: "ln (5 / 100000 :: real) \<le> - 2"
proof -
  have "exp (2 :: real) = exp 1 * exp 1" by (simp add: exp_add [symmetric])
  also have "\<dots> \<le> 3 * 3" by (intro mult_mono exp_le) simp_all
  finally have "exp (2 :: real) \<le> 20000" by simp
  then have "(2 :: real) \<le> ln 20000" by (simp add: ln_ge_iff)
  moreover have "ln (5 / 100000 :: real) = - ln 20000"
    using ln_inverse [of "20000 :: real"] by simp
  ultimately show ?thesis by simp
qed

lemma spec_q_low_zero:
  assumes "0 \<le> p" and "p \<le> spec_gamma2 \<delta> N"
  shows "spec_q_low p N \<delta> = 0"
proof -
  define g where "g = spec_gamma2 \<delta> N"
  have g: "p \<le> g" "0 \<le> g" using assms by (simp_all add: g_def)
  have "(p + g)\<^sup>2 = g\<^sup>2 + 2 * g * p + p * p" by (simp add: power2_eq_square algebra_simps)
  also have "\<dots> \<le> g\<^sup>2 + 2 * g * p + g * p"
    using g assms(1) by (simp add: mult_right_mono)
  finally have "(p + g)\<^sup>2 \<le> g\<^sup>2 + 3 * g * p" by (simp add: algebra_simps)
  then have "p + g \<le> sqrt (g\<^sup>2 + 3 * g * p)" by (rule real_le_rsqrt)
  then show ?thesis unfolding spec_q_low_def g_def [symmetric] by simp
qed

lemma spec_q_high_one:
  assumes "0 \<le> p" and "0 \<le> spec_gamma1 \<delta> N" and "1 \<le> p + spec_gamma1 \<delta> N"
  shows "spec_q_high p N \<delta> = 1"
proof -
  define g where "g = spec_gamma1 \<delta> N"
  define r where "r = sqrt (g\<^sup>2 + 2 * g * p)"
  have "0 \<le> g\<^sup>2 + 2 * g * p" using assms by (simp add: g_def)
  then have "0 \<le> r" by (simp add: r_def)
  with assms(3) have "1 \<le> p + g + r" by (simp add: g_def)
  then show ?thesis unfolding spec_q_high_def g_def [symmetric] r_def [symmetric] by simp
qed

lemma default_delta_two_rows:
  "spec_q_low (1 / 2) 2 (5 / 100000) = 0" "spec_q_high (1 / 2) 2 (5 / 100000) = 1"
proof -
  have g1: "1 \<le> spec_gamma1 (5 / 100000) 2" and g2: "2 / 3 \<le> spec_gamma2 (5 / 100000) 2"
    using ln_default_delta by (simp_all add: spec_gamma1_def spec_gamma2_def)
  show "spec_q_low (1 / 2) 2 (5 / 100000) = 0" by (rule spec_q_low_zero) (use g2 in simp_all)
  show "spec_q_high (1 / 2) 2 (5 / 100000) = 1" by (rule spec_q_high_one) (use g1 in simp_all)
qed

text \<open>
  Claim C5, amended. \<open>get_initial_thresholds\<close> has no capacity check: for a positive
  population size, an error bound in \<open>(0, 1)\<close> and non-negative sizes it returns, for every
  set, the interval of the specification at the sum of the preceding \<open>q_high\<close>, whatever
  that sum is; when the cumulative offsets exceed \<open>1\<close> the thresholds reach past the key
  space.
\<close>

theorem get_initial_thresholds_unchecked:
  assumes "0 < c" and "0 < \<delta>" and "\<delta> < 1"
    and "distinct (map fst ss)"
    and "\<forall>(n, s) \<in> set ss. 0 \<le> num_val s"
  shows "get_initial_thresholds ss c \<delta> = Inr (spec_intervals 0 ss c \<delta>)"
  using assms by (rule get_initial_thresholds_spec)

theorem get_initial_thresholds_unchecked_witness:
  "get_initial_thresholds [(''train'', PInt 700), (''test'', PInt 600)] 1000 (5 / 100000)
     = Inr (spec_intervals 0 [(''train'', PInt 700), (''test'', PInt 600)] 1000 (5 / 100000))"
  using get_initial_thresholds_unchecked [of 1000 "5 / 100000" "[(''train'', PInt 700), (''test'', PInt 600)]"]
  by simp

text \<open>
  Claim C5, as stated, fails: with the default error bound, two sets of size \<open>1\<close> on a
  population of \<open>2\<close> each reserve the whole key space; the second set is placed at offset
  \<open>1\<close> and ends at \<open>2\<close>, and no error is raised.
\<close>

theorem get_initial_thresholds_capacity_counterexample:
  "get_initial_thresholds [(''a'', PInt 1), (''b'', PInt 1)] 2 (5 / 100000)
     = Inr [(''a'', (0, 0, 1)), (''b'', (1, 1, 2))]"
proof -
  have "get_initial_thresholds [(''a'', PInt 1), (''b'', PInt 1)] 2 (5 / 100000)
      = Inr (spec_intervals 0 [(''a'', PInt 1), (''b'', PInt 1)] 2 (5 / 100000))"
    by (rule get_initial_thresholds_spec) simp_all
  moreover have "spec_q_low (1 / 2) 2 (1 / 20000) = 0" "spec_q_high (1 / 2) 2 (1 / 20000) = 1"
    using default_delta_two_rows by simp_all
  ultimately show ?thesis by simp
qed

lemma laid_out_member:
  "laid_out offset ths \<Longrightarrow> (n, (lo, ac, co)) \<in> set ths \<Longrightarrow> offset \<le> lo \<and> lo \<le> ac \<and> ac \<le> co"
proof (induction ths arbitrary: offset)
  case Nil
  then show ?case by simp
next
  case (Cons x ths)
  obtain m l a c where x: "x = (m, (l, a, c))" by (cases x) auto
  show ?case
  proof (cases "(n, (lo, ac, co)) = x")
    case True
    with Cons.prems x show ?thesis by simp
  next
    case False
    with Cons.prems x have "laid_out c ths" "(n, (lo, ac, co)) \<in> set ths" "offset \<le> c" by auto
    with Cons.IH [of c] show ?thesis by simp
  qed
qed

lemma laid_out_zones_disjoint:
  "laid_out offset ths \<Longrightarrow> i < j \<Longrightarrow> j < length ths \<Longrightarrow>
     zone (snd (ths ! i)) \<inter> zone (snd (ths ! j)) = {}"
proof (induction ths arbitrary: offset i j)
  case Nil
  then show ?case by simp
next
  case (Cons x ths)
  obtain m l a c where x: "x = (m, (l, a, c))" by (cases x) auto
  from Cons.prems x have lo: "laid_out c ths" by simp
  from Cons.prems obtain j' where j: "j = Suc j'" "j' < length ths" by (cases j) auto
  show ?case
  proof (cases i)
    case 0
    obtain m' l' a' c' where y: "ths ! j' = (m', (l', a', c'))" by (cases "ths ! j'") auto
    with j have "(m', (l', a', c')) \<in> set ths" by (metis nth_mem)
    from laid_out_member [OF lo this] have "c \<le> l'" by simp
    then show ?thesis using 0 j x y by (auto simp: zone_def)
  next
    case (Suc i')
    with Cons.prems j have "i' < j'" by simp
    from Cons.IH [OF lo this j(2)] show ?thesis using Suc j by simp
  qed
qed

lemma subseq_map_filter_snd:
  "subseq (map snd (List.map_filter (\<lambda>(k, r). map_option (\<lambda>m. (m, r)) (g k)) xs)) (map snd xs)"
proof (induction xs)
  case Nil
  show ?case by simp
next
  case (Cons x xs)
  obtain k r where x: "x = (k, r)" by (cases x)
  show ?case using Cons.IH
    by (cases "g k") (auto simp: x)
qed

lemma subseq_threshold_mapper:
  "subseq (map snd (threshold_mapper rng idx rows final seed)) rows"
proof -
  have "map snd (zip (partition_keys rng seed idx rows) rows) = rows"
    by (simp add: partition_keys_def)
  then show ?thesis
    unfolding threshold_mapper_def
    by (metis subseq_map_filter_snd)
qed

text \<open>
  Claim C2. For a configuration with positive population size, error bound in \<open>(0, 1)\<close>,
  distinct set names and sizes between \<open>0\<close> and the population size, the thresholds of
  \<open>get_initial_thresholds\<close> are laid out one after the other from \<open>0\<close>, so that the zones
  of two different sets share no key; and the second pass emits every row at most once:
  the rows of its output are a subsequence of the rows of the partition.
\<close>

theorem sets_disjoint:
  assumes "0 < c" and "0 < \<delta>" and "\<delta> < 1"
    and "distinct (map fst ss)"
    and "\<forall>(n, s) \<in> set ss. 0 \<le> num_val s \<and> num_val s \<le> c"
  shows "\<exists>ths. get_initial_thresholds ss c \<delta> = Inr ths
      \<and> map fst ths = map fst ss
      \<and> laid_out 0 ths
      \<and> (\<forall>i j. i < j \<and> j < length ths \<longrightarrow> zone (snd (ths ! i)) \<inter> zone (snd (ths ! j)) = {})
      \<and> subseq (map snd (threshold_mapper rng idx rows final seed)) rows"
proof -
  from assms(5) have nn: "\<forall>(n, s) \<in> set ss. 0 \<le> num_val s" by auto
  have "get_initial_thresholds ss c \<delta> = Inr (spec_intervals 0 ss c \<delta>)"
    unfolding get_initial_thresholds_def
    using initial_thresholds_loop_spec [OF assms(1,2,3,4) _ nn, of "[]" 0] by simp
  moreover have lo: "laid_out 0 (spec_intervals 0 ss c \<delta>)"
    using assms by (intro laid_out_spec_intervals)
  moreover have "\<forall>i j. i < j \<and> j < length (spec_intervals 0 ss c \<delta>) \<longrightarrow>
      zone (snd (spec_intervals 0 ss c \<delta> ! i)) \<inter> zone (snd (spec_intervals 0 ss c \<delta> ! j)) = {}"
    using laid_out_zones_disjoint [OF lo] by blast
  ultimately show ?thesis
    by (simp add: map_fst_spec_intervals subseq_threshold_mapper)
qed

theorem sets_disjoint_witness:
  "\<exists>ths. get_initial_thresholds [(''train'', PInt 600), (''test'', PInt 300)] 1000 (5 / 100000) = Inr ths
      \<and> map fst ths = [''train'', ''test'']
      \<and> laid_out 0 ths
      \<and> (\<forall>i j. i < j \<and> j < length ths \<longrightarrow> zone (snd (ths ! i)) \<inter> zone (snd (ths ! j)) = {})
      \<and> subseq (map snd (threshold_mapper (\<lambda>s j. 1 / 4) 0 [1, 2, 3 :: nat] [(''train'', (0, 1 / 2))] 42))
           [1, 2, 3]"
  using sets_disjoint [of 1000 "5 / 100000" "[(''train'', PInt 600), (''test'', PInt 300)]"
      "\<lambda>s j. 1 / 4" 0 "[1, 2, 3 :: nat]" "[(''train'', (0, 1 / 2))]" 42]
  by simp

subsection \<open>The merge of tallies\<close>

lemma reducer_Nil: "dict_addition_reducer a [] = a"
  by (simp add: dict_addition_reducer_def)

lemma reducer_Cons:
  "dict_addition_reducer a ((name, value) # b) =
     dict_addition_reducer
       (case map_of a name of
          None \<Rightarrow> AList.update name value a
        | Some (c, w) \<Rightarrow> AList.update name (c + fst value, w @ snd value) a) b"
  by (simp add: dict_addition_reducer_def)

lemma map_of_reducer:
  "distinct (map fst b) \<Longrightarrow>
     map_of (dict_addition_reducer a b) n = spec_merge (map_of a n) (map_of b n)"
proof (induction b arbitrary: a)
  case Nil
  show ?case by (cases "map_of a n") (simp_all add: reducer_Nil)
next
  case (Cons x b)
  obtain name v where x: "x = (name, v)" by (cases x)
  from Cons.prems x have nb: "map_of b name = None" and d: "distinct (map fst b)"
    by (auto simp: map_of_eq_None_iff)
  define a' where "a' = (case map_of a name of
          None \<Rightarrow> AList.update name v a
        | Some (c, w) \<Rightarrow> AList.update name (c + fst v, w @ snd v) a)"
  have "map_of (dict_addition_reducer a (x # b)) n = spec_merge (map_of a' n) (map_of b n)"
    unfolding x reducer_Cons a'_def by (rule Cons.IH [OF d])
  also have "\<dots> = spec_merge (map_of a n) (map_of (x # b) n)"
  proof (cases "n = name")
    case True
    then show ?thesis using nb x
      by (cases "map_of a name"; cases v) (auto simp: a'_def update_conv')
  next
    case False
    then show ?thesis using x
      by (cases "map_of a name") (auto simp: a'_def update_conv')
  qed
  finally show ?case .
qed

lemma spec_merge_assoc: "spec_merge (spec_merge x y) z = spec_merge x (spec_merge y z)"
  by (cases x; cases y; cases z) auto

lemma distinct_reducer:
  "distinct (map fst a) \<Longrightarrow> distinct (map fst (dict_addition_reducer a b))"
proof (induction b arbitrary: a)
  case Nil
  then show ?case by (simp add: reducer_Nil)
next
  case (Cons x b)
  obtain name v where x: "x = (name, v)" by (cases x)
  show ?case unfolding x reducer_Cons
    by (rule Cons.IH) (use Cons.prems in \<open>auto simp: distinct_update split: option.splits\<close>)
qed

lemma spec_merge_comm_mset:
  "map_option (apsnd mset) (spec_merge x y) = map_option (apsnd mset) (spec_merge y x)"
  by (cases x; cases y) auto


lemma keys_update:
  "map fst (AList.update k v al) = (if k \<in> fst ` set al then map fst al else map fst al @ [k])"
  by (induction al) auto

lemma keys_reducer:
  "distinct (map fst b) \<Longrightarrow>
     map fst (dict_addition_reducer a b) = map fst a @ filter (\<lambda>k. k \<notin> fst ` set a) (map fst b)"
proof (induction b arbitrary: a)
  case Nil
  show ?case by (simp add: reducer_Nil)
next
  case (Cons x b)
  obtain name v where x: "x = (name, v)" by (cases x)
  from Cons.prems x have nb: "name \<notin> fst ` set b" and d: "distinct (map fst b)"
    by auto
  show ?case
  proof (cases "map_of a name")
    case None
    then have na: "name \<notin> fst ` set a" by (simp add: map_of_eq_None_iff)
    have "filter (\<lambda>k. k \<notin> fst ` set (AList.update name v a)) (map fst b)
        = filter (\<lambda>k. k \<notin> fst ` set a) (map fst b)"
      using nb by (intro filter_cong) (auto simp: dom_update image_iff)
    then show ?thesis using None na
      by (simp add: x reducer_Cons Cons.IH [OF d] keys_update)
  next
    case (Some t)
    then have na: "name \<in> fst ` set a"
      by (metis map_of_eq_None_iff option.distinct(1))
    obtain c w where t: "t = (c, w)" by (cases t)
    have "fst ` set (AList.update name (c + fst v, w @ snd v) a) = fst ` set a"
      using na by (metis keys_update list.set_map)
    then show ?thesis using Some na t
      by (simp add: x reducer_Cons Cons.IH [OF d] keys_update)
  qed
qed

lemma alist_eqI:
  "map fst xs = map fst ys \<Longrightarrow> distinct (map fst xs) \<Longrightarrow> map_of xs = map_of ys \<Longrightarrow> xs = ys"
proof (induction xs arbitrary: ys)
  case Nil
  then show ?case by simp
next
  case (Cons x xs)
  then obtain y ys' where ys: "ys = y # ys'" by (cases ys) auto
  from Cons.prems ys have k: "fst x = fst y" "map fst xs = map fst ys'" by auto
  from Cons.prems(3) ys k have "snd x = snd y"
    by (metis fun_upd_same map_of.simps(2) option.inject)
  with k have xy: "x = y" by (simp add: prod_eq_iff)
  have "map_of xs = map_of ys'"
  proof
    fix n
    show "map_of xs n = map_of ys' n"
    proof (cases "n = fst x")
      case True
      with Cons.prems(2) k show ?thesis
        by (metis distinct.simps(2) list.simps(9) map_of_eq_None_iff list.set_map)
    next
      case False
      with Cons.prems(3) ys xy show ?thesis
        by (metis fun_upd_other map_of.simps(2))
    qed
  qed
  with Cons.IH k Cons.prems(2) xy ys show ?case by simp
qed


lemma key_set_reducer:
  "distinct (map fst b) \<Longrightarrow> fst ` set (dict_addition_reducer a b) = fst ` set a \<union> fst ` set b"
proof -
  assume "distinct (map fst b)"
  then have "set (map fst (dict_addition_reducer a b)) = set (map fst a) \<union> set (map fst b)"
    by (auto simp: keys_reducer)
  then show ?thesis by simp
qed

lemma reducer_assoc:
  assumes "distinct (map fst a)" and "distinct (map fst b)" and "distinct (map fst c)"
  shows "dict_addition_reducer (dict_addition_reducer a b) c
       = dict_addition_reducer a (dict_addition_reducer b c)"
proof (rule alist_eqI)
  have dbc: "distinct (map fst (dict_addition_reducer b c))"
    using assms(2) by (rule distinct_reducer)
  show "map fst (dict_addition_reducer (dict_addition_reducer a b) c)
      = map fst (dict_addition_reducer a (dict_addition_reducer b c))"
    using assms dbc
    by (auto simp: keys_reducer key_set_reducer intro!: filter_cong)
  show "distinct (map fst (dict_addition_reducer (dict_addition_reducer a b) c))"
    using assms(1) by (intro distinct_reducer)
  show "map_of (dict_addition_reducer (dict_addition_reducer a b) c)
      = map_of (dict_addition_reducer a (dict_addition_reducer b c))"
    using assms dbc by (auto simp: map_of_reducer spec_merge_assoc)
qed

text \<open>
  Claim C8, amended. For dictionaries (distinct names), the merge holds for every set name
  present in either argument the sum of the accepted counts and the concatenation of the
  waitlisted keys, first argument first; it is associative; and it is commutative up to the
  order of the waitlisted keys: \<open>merge A B\<close> and \<open>merge B A\<close> hold the same counts and
  the same multisets of waitlisted keys.
\<close>

theorem dict_addition_reducer_merge:
  assumes "distinct (map fst a)" and "distinct (map fst b)" and "distinct (map fst c)"
  shows "map_of (dict_addition_reducer a b) n = spec_merge (map_of a n) (map_of b n)
     \<and> dict_addition_reducer (dict_addition_reducer a b) c
       = dict_addition_reducer a (dict_addition_reducer b c)
     \<and> map_option (apsnd mset) (map_of (dict_addition_reducer a b) n)
       = map_option (apsnd mset) (map_of (dict_addition_reducer b a) n)"
  using assms by (simp add: map_of_reducer reducer_assoc spec_merge_comm_mset)

text \<open>
  Claim C8, as stated, fails in its commutativity: the waitlists are concatenated in
  argument order, so the two merges of these one-key tallies differ.
\<close>

theorem dict_addition_reducer_counterexample:
  "dict_addition_reducer [(''s'', (0, [1 / 4]))] [(''s'', (0, [1 / 2]))] = [(''s'', (0, [1 / 4, 1 / 2]))]
   \<and> dict_addition_reducer [(''s'', (0, [1 / 2]))] [(''s'', (0, [1 / 4]))] = [(''s'', (0, [1 / 2, 1 / 4]))]
   \<and> map_of (dict_addition_reducer [(''s'', (0, [1 / 4]))] [(''s'', (0, [1 / 2]))]) ''s''
     \<noteq> map_of (dict_addition_reducer [(''s'', (0, [1 / 2]))] [(''s'', (0, [1 / 4]))]) ''s''"
  by (simp add: dict_addition_reducer_def)

theorem dict_addition_reducer_merge_witness:
  "dict_addition_reducer [(''a'', (1, [1 / 4]))] [(''a'', (2, [1 / 2])), (''b'', (0, []))]
     = [(''a'', (3, [1 / 4, 1 / 2])), (''b'', (0, []))]
   \<and> dict_addition_reducer (dict_addition_reducer [(''a'', (1, [1 / 4]))] [(''a'', (2, [1 / 2])), (''b'', (0, []))]) [(''b'', (5, [1 / 8]))]
     = dict_addition_reducer [(''a'', (1, [1 / 4]))] (dict_addition_reducer [(''a'', (2, [1 / 2])), (''b'', (0, []))] [(''b'', (5, [1 / 8]))])"
  using dict_addition_reducer_merge [of "[(''a'', (1, [1 / 4]))]" "[(''a'', (2, [1 / 2])), (''b'', (0, []))]"
      "[(''b'', (5, [1 / 8]))]" "''a''"]
  by (simp add: dict_addition_reducer_def)

subsection \<open>The final thresholds\<close>

lemma final_thresholds_loop_Inr:
  assumes "distinct (map fst set_sizes)"
    and "final_thresholds_loop set_sizes counts thresholds fin = Inr final"
    and "(name, sz) \<in> set set_sizes"
  shows "\<exists>tally thr interval. map_of counts name = Some tally \<and> map_of thresholds name = Some thr
          \<and> final_threshold sz tally thr = Inr interval \<and> map_of final name = Some interval"
  using assms
proof (induction set_sizes arbitrary: fin)
  case Nil
  then show ?case by simp
next
  case (Cons x rest)
  obtain n s where x: "x = (n, s)" by (cases x)
  from Cons.prems(2) x obtain tally thr interval where
    t: "map_of counts n = Some tally" "map_of thresholds n = Some thr"
       "final_threshold s tally thr = Inr interval" and
    r: "final_thresholds_loop rest counts thresholds (AList.update n interval fin) = Inr final"
    by (auto split: option.splits sum.splits)
  from Cons.prems(1) x have d: "distinct (map fst rest)" and nr: "n \<notin> fst ` set rest" by auto
  show ?case
  proof (cases "(name, sz) \<in> set rest")
    case True
    from Cons.IH [OF d r True] show ?thesis .
  next
    case False
    with Cons.prems(3) x have eq: "name = n" "sz = s" by auto
    have keep: "\<And>acc' final'. final_thresholds_loop rest counts thresholds acc' = Inr final' \<Longrightarrow>
        n \<notin> fst ` set rest \<Longrightarrow> map_of final' n = map_of acc' n"
    proof -
      fix acc' final'
      show "final_thresholds_loop rest counts thresholds acc' = Inr final' \<Longrightarrow>
        n \<notin> fst ` set rest \<Longrightarrow> map_of final' n = map_of acc' n"
      proof (induction rest arbitrary: acc')
        case Nil
        then show ?case by simp
      next
        case (Cons y ys)
        obtain m u where y: "y = (m, u)" by (cases y)
        with Cons.prems show ?case
          by (auto split: option.splits sum.splits simp: update_conv' dest!: Cons.IH)
      qed
    qed
    from keep [OF r nr] have "map_of final n = Some interval" by (simp add: update_conv')
    with t eq show ?thesis by simp
  qed
qed

lemma strict_sorted_filter_less:
  assumes "sorted s" and "distinct s" and "r < length s"
  shows "filter (\<lambda>k. k < s ! r) s = take r s"
proof -
  have s: "s = take r s @ drop r s" by simp
  have "\<forall>k \<in> set (take r s). k < s ! r"
  proof
    fix k assume "k \<in> set (take r s)"
    then obtain i where i: "i < r" "k = s ! i"
      using assms(3) by (auto simp: in_set_conv_nth)
    with assms have "s ! i \<le> s ! r" by (simp add: sorted_nth_mono)
    moreover from i assms have "s ! i \<noteq> s ! r" by (simp add: nth_eq_iff_index_eq)
    ultimately show "k < s ! r" using i by simp
  qed
  then have a: "filter (\<lambda>k. k < s ! r) (take r s) = take r s" by (simp add: filter_id_conv)
  have "\<forall>k \<in> set (drop r s). \<not> k < s ! r"
  proof
    fix k assume "k \<in> set (drop r s)"
    then obtain i where i: "i < length s - r" "k = s ! (r + i)"
      by (auto simp: in_set_conv_nth)
    with assms have "s ! r \<le> s ! (r + i)" by (simp add: sorted_nth_mono)
    with i show "\<not> k < s ! r" by simp
  qed
  then have b: "filter (\<lambda>k. k < s ! r) (drop r s) = []" by (simp add: filter_empty_conv)
  have "filter (\<lambda>k. k < s ! r) s = filter (\<lambda>k. k < s ! r) (take r s) @ filter (\<lambda>k. k < s ! r) (drop r s)"
    by (metis filter_append s)
  with a b show ?thesis by simp
qed

lemma length_filter_sort: "length (filter P (sort xs)) = length (filter P (xs :: 'a :: linorder list))"
proof -
  have "mset (filter P (sort xs)) = mset (filter P xs)" by simp
  then show ?thesis by (metis size_mset)
qed

lemma count_below_order_statistic:
  assumes "distinct w" and "r < length w"
  shows "length (filter (\<lambda>k. k < sort w ! r) w) = r"
proof -
  have "length (filter (\<lambda>k. k < sort w ! r) w) = length (filter (\<lambda>k. k < sort w ! r) (sort w))"
    by (rule length_filter_sort [symmetric])
  also have "\<dots> = length (take r (sort w))"
    using assms by (simp add: strict_sorted_filter_less)
  finally show ?thesis using assms by simp
qed

lemma final_threshold_middle:
  assumes "0 < sz - cnt" and "sz - cnt < int (length w)"
  shows "final_threshold (PInt sz) (cnt, w) (low, accept, cutoff) = Inr (low, sort w ! nat (sz - cnt))"
proof -
  let ?r = "nat (sz - cnt)"
  have n: "nat (sz - cnt + 1) = Suc ?r" using assms by simp
  have len: "Suc ?r \<le> length (sort w)" using assms by simp
  then have tl: "length (take (Suc ?r) (sort w)) = Suc ?r" by simp
  then have ne: "take (Suc ?r) (sort w) \<noteq> []" by (metis length_0_conv nat.distinct(1))
  have "last (take (Suc ?r) (sort w)) = take (Suc ?r) (sort w) ! ?r"
    using ne tl by (simp add: last_conv_nth)
  then have "last (take (Suc ?r) (sort w)) = sort w ! ?r" by simp
  with ne assms n show ?thesis
    by (auto simp: final_threshold_def nsmallest_def Let_def split: list.splits)
qed


text \<open>
  The mid-waitlist branch on integer target sizes (the path without reproportioning). For
  a set whose \<open>required = size - count\<close> lies strictly between \<open>0\<close> and the length of its
  waitlist, and whose waitlisted keys are pairwise distinct, the upper bound that
  \<open>get_final_thresholds\<close> stores for the set is the \<open>(required + 1)\<close>-th smallest waitlisted
  key (index \<open>required\<close> of the sorted waitlist), and exactly \<open>required\<close> waitlisted keys are
  strictly below it.
\<close>

lemma final_threshold_order_statistic:
  assumes "distinct (map fst set_sizes)"
    and "(name, PInt sz) \<in> set set_sizes"
    and "map_of counts name = Some (cnt, w)"
    and "map_of thresholds name = Some (low, accept, cutoff)"
    and "0 < sz - cnt" and "sz - cnt < int (length w)"
    and "distinct w"
    and "get_final_thresholds counts set_sizes thresholds = Inr final"
  shows "map_of final name = Some (low, sort w ! nat (sz - cnt))
     \<and> length (filter (\<lambda>k. k < sort w ! nat (sz - cnt)) w) = nat (sz - cnt)"
proof -
  from final_thresholds_loop_Inr [OF assms(1) assms(8) [unfolded get_final_thresholds_def] assms(2)]
    assms(3,4)
  have "\<exists>interval. final_threshold (PInt sz) (cnt, w) (low, accept, cutoff) = Inr interval
      \<and> map_of final name = Some interval"
    by auto
  with final_threshold_middle [OF assms(5,6)]
  have "map_of final name = Some (low, sort w ! nat (sz - cnt))" by auto
  moreover have "length (filter (\<lambda>k. k < sort w ! nat (sz - cnt)) w) = nat (sz - cnt)"
    using assms(5,6,7) by (intro count_below_order_statistic) auto
  ultimately show ?thesis by simp
qed

lemma final_threshold_order_statistic_example:
  "get_final_thresholds [(''a'', (1, [1 / 2, 3 / 10, 2 / 5, 7 / 20]))] [(''a'', PInt 3)]
       [(''a'', (0, 1 / 4, 3 / 5))] = Inr [(''a'', (0, 2 / 5))]
   \<and> map_of [(''a'', (0 :: real, 2 / 5 :: real))] ''a'' = Some (0, sort [1 / 2, 3 / 10, 2 / 5, 7 / 20 :: real] ! nat (3 - 1))
   \<and> length (filter (\<lambda>k. k < sort [1 / 2, 3 / 10, 2 / 5, 7 / 20 :: real] ! nat (3 - 1)) [1 / 2, 3 / 10, 2 / 5, 7 / 20]) = nat (3 - 1)"
proof -
  have s: "sort [1 / 2, 3 / 10, 2 / 5, 7 / 20 :: real] = [3 / 10, 7 / 20, 2 / 5, 1 / 2]"
    by simp
  have n: "nat (3 - 1 + 1) = Suc (Suc (Suc 0))" "nat (3 - 1) = Suc (Suc 0)" by simp_all
  have g: "get_final_thresholds [(''a'', (1, [1 / 2, 3 / 10, 2 / 5, 7 / 20]))] [(''a'', PInt 3)]
       [(''a'', (0, 1 / 4, 3 / 5))] = Inr [(''a'', (0, 2 / 5))]"
    by (simp add: get_final_thresholds_def final_threshold_def nsmallest_def s n)
  from final_threshold_order_statistic [of "[(''a'', PInt 3)]" "''a''" 3
      "[(''a'', (1, [1 / 2, 3 / 10, 2 / 5, 7 / 20]))]" 1 "[1 / 2, 3 / 10, 2 / 5, 7 / 20]"
      "[(''a'', (0, 1 / 4, 3 / 5))]" 0 "1 / 4" "3 / 5" "[(''a'', (0, 2 / 5))]"] g
  show ?thesis by simp
qed

subsection \<open>The two passes together\<close>

lemma map_fst_map_entry: "map fst (AList.map_entry k f xs) = map fst xs"
  by (induction xs) auto

lemma classify_key_step:
  "classify_key key ((name, thr) # rest) vals
     = classify_key key rest (AList.map_entry name (classify key thr) vals)"
proof -
  obtain low accept waitlist where thr: "thr = (low, accept, waitlist)" by (cases thr)
  have id: "AList.map_entry name (\<lambda>t. t) vals = vals" by (induction vals) auto
  have "AList.map_entry name (classify key thr) vals
      = (if key < low then vals
        else if key < accept then AList.map_entry name (\<lambda>(c, w). (c + 1, w)) vals
        else if key < waitlist then AList.map_entry name (\<lambda>(c, w). (c, w @ [key])) vals
        else vals)"
  proof -
    have "classify key thr = (if key < low then (\<lambda>t. t)
        else if key < accept then (\<lambda>(c, w). (c + 1, w))
        else if key < waitlist then (\<lambda>(c, w). (c, w @ [key]))
        else (\<lambda>t. t))"
      by (auto simp: classify_def thr fun_eq_iff)
    then show ?thesis by (simp add: id)
  qed
  then show ?thesis by (simp add: thr)
qed

lemma map_fst_classify_key: "map fst (classify_key key ths vals) = map fst vals"
proof (induction ths arbitrary: vals)
  case Nil
  show ?case by simp
next
  case (Cons x ths)
  obtain name thr where x: "x = (name, thr)" by (cases x)
  show ?case unfolding x classify_key_step by (simp add: Cons.IH map_fst_map_entry)
qed

lemma map_of_classify_key:
  "distinct (map fst ths) \<Longrightarrow>
     map_of (classify_key key ths vals) n
       = (case map_of ths n of
            None \<Rightarrow> map_of vals n
          | Some thr \<Rightarrow> map_option (classify key thr) (map_of vals n))"
proof (induction ths arbitrary: vals)
  case Nil
  show ?case by simp
next
  case (Cons x ths)
  obtain name thr where x: "x = (name, thr)" by (cases x)
  from Cons.prems x have d: "distinct (map fst ths)" and fresh: "map_of ths name = None"
    by (auto simp: map_of_eq_None_iff)
  show ?case
    unfolding x classify_key_step
    using fresh
    by (cases "map_of vals n")
       (auto simp: Cons.IH [OF d] map_of_map_entry split: option.splits)
qed


lemma map_of_map_snd:
  "map_of (map (\<lambda>(n, thr). (n, F thr)) ths) n = map_option F (map_of ths n)"
  by (induction ths) auto

lemma classify_key_all:
  assumes "distinct (map fst ths)"
  shows "classify_key key ths (map (\<lambda>(n, thr). (n, F thr)) ths)
       = map (\<lambda>(n, thr). (n, classify key thr (F thr))) ths"
proof (rule alist_eqI)
  show "map fst (classify_key key ths (map (\<lambda>(n, thr). (n, F thr)) ths))
      = map fst (map (\<lambda>(n, thr). (n, classify key thr (F thr))) ths)"
    by (simp add: map_fst_classify_key comp_def case_prod_unfold)
  show "distinct (map fst (classify_key key ths (map (\<lambda>(n, thr). (n, F thr)) ths)))"
    using assms by (simp add: map_fst_classify_key comp_def case_prod_unfold)
  show "map_of (classify_key key ths (map (\<lambda>(n, thr). (n, F thr)) ths))
      = map_of (map (\<lambda>(n, thr). (n, classify key thr (F thr))) ths)"
  proof
    fix n
    show "map_of (classify_key key ths (map (\<lambda>(n, thr). (n, F thr)) ths)) n
      = map_of (map (\<lambda>(n, thr). (n, classify key thr (F thr))) ths) n"
      by (cases "map_of ths n") (simp_all add: map_of_classify_key [OF assms] map_of_map_snd)
  qed
qed

lemma fold_classify_key:
  assumes "distinct (map fst ths)"
  shows "fold (\<lambda>key vals. classify_key key ths vals) keys (map (\<lambda>(n, thr). (n, F thr)) ths)
       = map (\<lambda>(n, thr). (n, fold (\<lambda>key. classify key thr) keys (F thr))) ths"
proof (induction keys arbitrary: F)
  case Nil
  show ?case by simp
next
  case (Cons k keys)
  show ?case
    using Cons.IH [of "\<lambda>thr. classify k thr (F thr)"]
    by (simp add: classify_key_all [OF assms])
qed

lemma threshold_accumulator_tally:
  assumes "distinct (map fst ths)"
  shows "threshold_accumulator rng idx rows ths seed
       = map (\<lambda>(n, thr). (n, expected_tally (partition_keys rng seed idx rows) thr)) ths"
  unfolding threshold_accumulator_def expected_tally_def
  using fold_classify_key [OF assms, of "partition_keys rng seed idx rows" "\<lambda>thr. (0, [])"]
  by simp

lemma fold_classify:
  "fold (\<lambda>key. classify key (lo, ac, co)) keys (c, w)
     = (c + int (length (filter (\<lambda>k. \<not> k < lo \<and> k < ac) keys)),
        w @ filter (\<lambda>k. \<not> k < lo \<and> \<not> k < ac \<and> k < co) keys)"
  by (induction keys arbitrary: c w) (auto simp: classify_def)

lemma expected_tally_eq:
  "expected_tally keys (lo, ac, co)
     = (int (length (filter (\<lambda>k. \<not> k < lo \<and> k < ac) keys)),
        filter (\<lambda>k. \<not> k < lo \<and> \<not> k < ac \<and> k < co) keys)"
  by (simp add: expected_tally_def fold_classify)

lemma expected_tally_append:
  "spec_merge (Some (expected_tally xs thr)) (Some (expected_tally ys thr))
     = Some (expected_tally (xs @ ys) thr)"
  by (cases thr) (simp add: expected_tally_eq)

lemma map_of_foldl_reducer:
  "\<forall>t \<in> set ts. distinct (map fst t) \<Longrightarrow>
     map_of (foldl dict_addition_reducer t0 ts) n
       = foldl spec_merge (map_of t0 n) (map (\<lambda>t. map_of t n) ts)"
  by (induction ts arbitrary: t0) (simp_all add: map_of_reducer)

lemma foldl_spec_merge_expected:
  "foldl spec_merge (Some (expected_tally k0 thr)) (map (\<lambda>ks. Some (expected_tally ks thr)) kss)
     = Some (expected_tally (k0 @ concat kss) thr)"
  by (induction kss arbitrary: k0) (simp_all add: expected_tally_append)

lemma foldl_spec_merge_None: "foldl spec_merge None (map (\<lambda>ks. None) kss) = None"
  by (induction kss) simp_all


lemma global_counts_tally:
  assumes "distinct (map fst ths)" and "rdd \<noteq> []"
  shows "\<exists>counts. global_counts rng rdd ths seed = Inr counts
      \<and> (\<forall>n. map_of counts n = map_option (expected_tally (all_keys rng seed rdd)) (map_of ths n))"
proof -
  define keys where "keys = (\<lambda>(idx, rows :: 'a list). partition_keys rng seed (int idx) rows)"
  define tal where "tal = (\<lambda>p :: nat \<times> 'a list. map (\<lambda>(n, thr). (n, expected_tally (keys p) thr)) ths)"
  from assms(2) obtain p ps where e: "enumerate 0 rdd = p # ps"
    by (cases "enumerate 0 rdd") (auto simp: enumerate_eq_zip)
  have acc: "map_partitions_with_index (\<lambda>idx rows. threshold_accumulator rng idx rows ths seed) rdd
      = map tal (p # ps)"
    unfolding map_partitions_with_index_def e [symmetric] tal_def keys_def
    by (simp add: threshold_accumulator_tally [OF assms(1)] case_prod_unfold)
  define counts where "counts = foldl dict_addition_reducer (tal p) (map tal ps)"
  have g: "global_counts rng rdd ths seed = Inr counts"
    by (simp add: global_counts_def acc counts_def)
  have dist: "\<forall>t \<in> set (map tal ps). distinct (map fst t)"
    using assms(1) by (auto simp: tal_def comp_def case_prod_unfold)
  have all: "all_keys rng seed rdd = keys p @ concat (map keys ps)"
    by (simp add: all_keys_def e keys_def)
  have "map_of counts n = map_option (expected_tally (all_keys rng seed rdd)) (map_of ths n)" for n
  proof -
    have m: "map_of (tal q) n = map_option (expected_tally (keys q)) (map_of ths n)" for q
      by (simp add: tal_def map_of_map_snd)
    have "map_of counts n
        = foldl spec_merge (map_of (tal p) n) (map (\<lambda>t. map_of t n) (map tal ps))"
      unfolding counts_def by (rule map_of_foldl_reducer [OF dist])
    also have "\<dots> = map_option (expected_tally (all_keys rng seed rdd)) (map_of ths n)"
    proof (cases "map_of ths n")
      case None
      then show ?thesis using foldl_spec_merge_None [of ps] by (simp add: m comp_def)
    next
      case (Some thr)
      then show ?thesis
        using foldl_spec_merge_expected [of "keys p" thr "map keys ps"]
        by (simp add: m comp_def all)
    qed
    finally show ?thesis .
  qed
  with g show ?thesis by blast
qed


lemma length_filter_split:
  fixes a b c :: real
  assumes "a \<le> b" and "b \<le> c"
  shows "length (filter (\<lambda>k. \<not> k < a \<and> k < c) K)
       = length (filter (\<lambda>k. \<not> k < a \<and> k < b) K)
         + length (filter (\<lambda>k. \<not> k < a \<and> \<not> k < b \<and> k < c) K)"
  using assms by (induction K) auto

lemma final_threshold_exact:
  assumes order: "lo \<le> ac" "ac \<le> co"
    and tally: "expected_tally K (lo, ac, co) = (c, w)"
    and bracket: "c \<le> sz" "sz \<le> c + int (length w)"
    and dist: "distinct w"
  shows "\<exists>h. final_threshold (PInt sz) (c, w) (lo, ac, co) = Inr (lo, h)
      \<and> ac \<le> h \<and> h \<le> co
      \<and> int (length (filter (\<lambda>k. \<not> k < lo \<and> k < h) K)) = sz"
proof -
  from tally have c: "c = int (length (filter (\<lambda>k. \<not> k < lo \<and> k < ac) K))"
    and w: "w = filter (\<lambda>k. \<not> k < lo \<and> \<not> k < ac \<and> k < co) K"
    by (simp_all add: expected_tally_eq)
  consider "sz = c" | "sz = c + int (length w)" "c < sz" | "c < sz" "sz < c + int (length w)"
    using bracket by linarith
  then show ?thesis
  proof cases
    case 1
    then have "final_threshold (PInt sz) (c, w) (lo, ac, co) = Inr (lo, ac)"
      by (simp add: final_threshold_def)
    with 1 c order show ?thesis by simp
  next
    case 2
    then have "final_threshold (PInt sz) (c, w) (lo, ac, co) = Inr (lo, co)"
      by (simp add: final_threshold_def)
    moreover have "int (length (filter (\<lambda>k. \<not> k < lo \<and> k < co) K)) = sz"
      using length_filter_split [OF order, of K] 2 c w by simp
    ultimately show ?thesis using order by simp
  next
    case 3
    define r where "r = nat (sz - c)"
    define h where "h = sort w ! r"
    from 3 have r: "r < length w" "0 < sz - c" "sz - c < int (length w)" by (simp_all add: r_def)
    have f: "final_threshold (PInt sz) (c, w) (lo, ac, co) = Inr (lo, h)"
      unfolding h_def r_def by (rule final_threshold_middle [OF r(2,3)])
    have "h \<in> set (sort w)" unfolding h_def using r(1) by (simp only: nth_mem length_sort)
    then have "h \<in> set w" by simp
    then have hb: "ac \<le> h" "h < co" unfolding w by auto
    have below: "length (filter (\<lambda>k. k < h) w) = r"
      unfolding h_def by (rule count_below_order_statistic [OF dist r(1)])
    have "filter (\<lambda>k. k < h) w = filter (\<lambda>k. \<not> k < lo \<and> \<not> k < ac \<and> k < h) K"
      unfolding w using hb by (auto intro: filter_cong)
    with below have "length (filter (\<lambda>k. \<not> k < lo \<and> \<not> k < ac \<and> k < h) K) = r" by simp
    with length_filter_split [OF order(1) hb(1), of K] c
    have "int (length (filter (\<lambda>k. \<not> k < lo \<and> k < h) K)) = c + int r" by simp
    also have "\<dots> = sz" using 3 by (simp add: r_def)
    finally show ?thesis using f hb by auto
  qed
qed

lemma ordered_mono: "ordered b fs \<Longrightarrow> a \<le> b \<Longrightarrow> ordered a fs"
  by (cases fs) auto

lemma match_set_name: "match_set k fs = Some n \<Longrightarrow> n \<in> fst ` set fs"
  by (induction fs) (auto split: if_splits)

lemma ordered_lower: "ordered off fs \<Longrightarrow> (n, (lo, hi)) \<in> set fs \<Longrightarrow> off \<le> lo"
proof (induction fs arbitrary: off)
  case Nil
  then show ?case by simp
next
  case (Cons x fs)
  obtain m l h where x: "x = (m, (l, h))" by (cases x) auto
  show ?case
  proof (cases "(n, (lo, hi)) = x")
    case True
    with Cons.prems x show ?thesis by simp
  next
    case False
    with Cons.prems x have "ordered h fs" "(n, (lo, hi)) \<in> set fs" "off \<le> h" by auto
    with Cons.IH [of h] show ?thesis by simp
  qed
qed

lemma match_set_ordered:
  "ordered off fs \<Longrightarrow> distinct (map fst fs) \<Longrightarrow> (n, (lo, hi)) \<in> set fs \<Longrightarrow>
     match_set k fs = Some n \<longleftrightarrow> \<not> k < lo \<and> k < hi"
proof (induction fs arbitrary: off)
  case Nil
  then show ?case by simp
next
  case (Cons x fs)
  obtain m l h where x: "x = (m, (l, h))" by (cases x) auto
  from Cons.prems x have o: "ordered h fs" "l \<le> h" and d: "distinct (map fst fs)"
    and fresh: "m \<notin> fst ` set fs" by auto
  show ?case
  proof (cases "n = m")
    case True
    with Cons.prems(3) x fresh have eq: "lo = l" "hi = h" by (auto simp: image_iff)
    have "match_set k fs \<noteq> Some m" using match_set_name fresh by blast
    with True eq x show ?thesis by auto
  next
    case False
    with Cons.prems(3) x have mem: "(n, (lo, hi)) \<in> set fs" by auto
    from ordered_lower [OF o(1) mem] have "h \<le> lo" .
    with Cons.IH [OF o(1) d mem] False o(2) x show ?thesis by auto
  qed
qed

lemma count_map_filter_zip:
  "length ks = length rs \<Longrightarrow>
     length (filter (\<lambda>(m, r). m = n)
       (List.map_filter (\<lambda>(k, r). map_option (\<lambda>m. (m, r)) (g k)) (zip ks rs)))
     = length (filter (\<lambda>k. g k = Some n) ks)"
proof (induction ks rs rule: list_induct2)
  case Nil
  show ?case by simp
next
  case (Cons k ks r rs)
  then show ?case by (cases "g k") auto
qed

lemma count_threshold_mapper:
  "length (filter (\<lambda>(m, r). m = n) (threshold_mapper rng idx rows fs seed))
     = length (filter (\<lambda>k. match_set k fs = Some n) (partition_keys rng seed idx rows))"
  unfolding threshold_mapper_def
  by (rule count_map_filter_zip) (simp add: partition_keys_def)

lemma count_output:
  "length (filter (\<lambda>(m, r). m = n)
       (concat (map_partitions_with_index (\<lambda>idx rows. threshold_mapper rng idx rows fs seed) rdd)))
     = length (filter (\<lambda>k. match_set k fs = Some n) (all_keys rng seed rdd))"
proof -
  have "length (filter (\<lambda>(m, r). m = n)
       (concat (map (\<lambda>(idx, rows). threshold_mapper rng (int idx) rows fs seed) ps)))
     = length (filter (\<lambda>k. match_set k fs = Some n)
       (concat (map (\<lambda>(idx, rows). partition_keys rng seed (int idx) rows) ps)))" for ps
    by (induction ps) (auto simp: count_threshold_mapper)
  then show ?thesis by (simp add: map_partitions_with_index_def all_keys_def)
qed

lemma final_thresholds_loop_all:
  assumes "distinct (map fst ss)" and "fst ` set ss \<inter> fst ` set fin = {}"
    and "\<forall>(n, s) \<in> set ss. \<exists>tally thr. map_of counts n = Some tally \<and> map_of ths n = Some thr
           \<and> final_threshold s tally thr = Inr (G n s)"
  shows "final_thresholds_loop ss counts ths fin = Inr (fin @ map (\<lambda>(n, s). (n, G n s)) ss)"
  using assms
proof (induction ss arbitrary: fin)
  case Nil
  show ?case by simp
next
  case (Cons x ss)
  obtain n s where x: "x = (n, s)" by (cases x)
  from Cons.prems(3) x obtain tally thr where
    t: "map_of counts n = Some tally" "map_of ths n = Some thr"
       "final_threshold s tally thr = Inr (G n s)" by auto
  from Cons.prems(2) x have fresh: "n \<notin> fst ` set fin" by auto
  have d: "distinct (map fst ss)" using Cons.prems(1) by simp
  have i: "fst ` set ss \<inter> fst ` set (fin @ [(n, G n s)]) = {}"
    using Cons.prems(1,2) x by auto
  have r: "\<forall>(n, s) \<in> set ss. \<exists>tally thr. map_of counts n = Some tally \<and> map_of ths n = Some thr
           \<and> final_threshold s tally thr = Inr (G n s)"
    using Cons.prems(3) by simp
  have "final_thresholds_loop (x # ss) counts ths fin
      = final_thresholds_loop ss counts ths (fin @ [(n, G n s)])"
    by (simp add: x t update_fresh [OF fresh])
  also have "\<dots> = Inr ((fin @ [(n, G n s)]) @ map (\<lambda>(n, s). (n, G n s)) ss)"
    by (rule Cons.IH [OF d i r])
  finally show ?case by (simp add: x)
qed

lemma final_intervals_ordered:
  fixes K :: "real list"
  defines "G \<equiv> \<lambda>counts THS n s.
      projr (final_threshold s (the (map_of counts n)) (the (map_of THS n)))"
  assumes c: "0 < c" and d: "0 < \<delta>" "\<delta> < 1"
    and counts: "\<forall>n. map_of counts n = map_option (expected_tally K) (map_of THS n)"
    and dist: "distinct K"
  shows "\<forall>(n, thr) \<in> set (spec_intervals off ss c \<delta>). map_of THS n = Some thr \<Longrightarrow>
     \<forall>(n, s) \<in> set ss. \<exists>sz. s = PInt sz \<and> 0 \<le> sz \<and> real_of_int sz \<le> c
        \<and> (\<exists>cc w. map_of counts n = Some (cc, w) \<and> cc \<le> sz \<and> sz \<le> cc + int (length w)) \<Longrightarrow>
     (\<forall>(n, s) \<in> set ss. \<exists>tally thr. map_of counts n = Some tally \<and> map_of THS n = Some thr
              \<and> final_threshold s tally thr = Inr (G counts THS n s))
        \<and> ordered off (map (\<lambda>(n, s). (n, G counts THS n s)) ss)
        \<and> (\<forall>(n, s) \<in> set ss. case G counts THS n s of (lo, hi) \<Rightarrow>
              real_of_int (int (length (filter (\<lambda>k. \<not> k < lo \<and> k < hi) K))) = num_val s)"
proof (induction ss arbitrary: off)
  case Nil
  show ?case by simp
next
  case (Cons x ss)
  obtain n s where x: "x = (n, s)" by (cases x)
  from Cons.prems(2) x obtain sz cc w where
    s: "s = PInt sz" and sz: "0 \<le> sz" "real_of_int sz \<le> c"
    and cw: "map_of counts n = Some (cc, w)" and br: "cc \<le> sz" "sz \<le> cc + int (length w)"
    by auto
  define p where "p = real_of_int sz / c"
  define ql where "ql = spec_q_low p c \<delta>"
  define qh where "qh = spec_q_high p c \<delta>"
  from sz c have p: "0 \<le> p" "p \<le> 1" by (simp_all add: p_def)
  have ql: "0 \<le> ql" "ql \<le> p" unfolding ql_def using p(1) c d by (simp_all add: spec_q_low_bounds)
  have "min 1 p \<le> qh" unfolding qh_def using p(1) c d by (rule spec_q_high_bounds)
  with p(2) have qh: "p \<le> qh" by simp
  have thr: "map_of THS n = Some (off, off + ql, off + qh)"
    using Cons.prems(1) by (simp add: x s p_def ql_def qh_def)
  with counts cw have tally: "expected_tally K (off, off + ql, off + qh) = (cc, w)" by simp
  then have "w = filter (\<lambda>k. \<not> k < off \<and> \<not> k < off + ql \<and> k < off + qh) K"
    by (simp add: expected_tally_eq)
  with dist have dw: "distinct w" by simp
  from final_threshold_exact [OF _ _ tally br dw, of ] ql qh obtain h where
    h: "final_threshold (PInt sz) (cc, w) (off, off + ql, off + qh) = Inr (off, h)"
       "off + ql \<le> h" "h \<le> off + qh"
       "int (length (filter (\<lambda>k. \<not> k < off \<and> k < h) K)) = sz"
    by auto
  have Gn: "G counts THS n s = (off, h)" by (simp add: G_def cw thr s h(1))
  have tail1: "\<forall>(n, thr) \<in> set (spec_intervals (off + qh) ss c \<delta>). map_of THS n = Some thr"
    using Cons.prems(1) by (simp add: x s p_def qh_def)
  have tail2: "\<forall>(n, s) \<in> set ss. \<exists>sz. s = PInt sz \<and> 0 \<le> sz \<and> real_of_int sz \<le> c
        \<and> (\<exists>cc w. map_of counts n = Some (cc, w) \<and> cc \<le> sz \<and> sz \<le> cc + int (length w))"
    using Cons.prems(2) by simp
  note IH = Cons.IH [OF tail1 tail2]
  from IH have "ordered (off + qh) (map (\<lambda>(n, s). (n, G counts THS n s)) ss)" by simp
  then have "ordered h (map (\<lambda>(n, s). (n, G counts THS n s)) ss)"
    using h(3) by (rule ordered_mono)
  moreover have "off \<le> h" using ql(1) h(2) by simp
  moreover have "real_of_int (int (length (filter (\<lambda>k. \<not> k < off \<and> k < h) K))) = num_val s"
    using h(4) s by simp
  ultimately show ?case using IH Gn cw thr h(1) s by (simp add: x)
qed


lemma member_le_sum_list_int:
  fixes vs :: "int list"
  shows "\<forall>v \<in> set vs. 0 \<le> v \<Longrightarrow> v \<in> set vs \<Longrightarrow> v \<le> sum_list vs"
proof (induction vs)
  case Nil
  then show ?case by simp
next
  case (Cons a vs)
  have "0 \<le> sum_list vs" using Cons.prems(1) by (simp add: sum_list_nonneg)
  with Cons show ?case by auto
qed

text \<open>
  Claim C1, amended. Take a configuration with a non-empty RDD, a positive population
  size, an error bound in \<open>(0, 1)\<close>, distinct set names, non-negative absolute target sizes
  whose sum is at most the population size, and pairwise distinct keys. If moreover the
  first pass brackets every target, that is, every set's accepted count is at most its
  target size and the target size is at most the accepted count plus the length of the
  waitlist, then \<open>scalable_srs\<close> returns an output that holds, for every target set, exactly
  the target number of pairs with that set's name.
\<close>

theorem scalable_srs_exact_sizes:
  fixes rdd :: "'r list list"
  assumes "rdd \<noteq> []"
    and "0 < resolve_count cnt rdd" and "0 < \<delta>" and "\<delta> < 1"
    and "distinct (map fst set_sizes)"
    and "\<forall>(n, v) \<in> set (absolute_sizes set_sizes (resolve_count cnt rdd)). 0 \<le> v"
    and "real_of_int (sum_list (map snd (absolute_sizes set_sizes (resolve_count cnt rdd))))
           \<le> resolve_count cnt rdd"
    and "distinct (all_keys rng (resolve_seed seed now) rdd)"
    and "set_up_set_sizes set_sizes (resolve_count cnt rdd) reproportion = Inr sizes"
    and "get_initial_thresholds sizes (resolve_count cnt rdd) \<delta> = Inr ths"
    and "global_counts rng rdd ths (resolve_seed seed now) = Inr counts"
    and "\<forall>(n, v) \<in> set (absolute_sizes set_sizes (resolve_count cnt rdd)).
           \<exists>c w. map_of counts n = Some (c, w) \<and> c \<le> v \<and> v \<le> c + int (length w)"
  shows "\<exists>out. scalable_srs rng now rdd set_sizes cnt \<delta> seed reproportion = Inr out
     \<and> (\<forall>(n, v) \<in> set (absolute_sizes set_sizes (resolve_count cnt rdd)).
           int (length (filter (\<lambda>(m, r). m = n) (concat out))) = v)"
proof -
  define N where "N = resolve_count cnt rdd"
  define sd where "sd = resolve_seed seed now"
  define A where "A = absolute_sizes set_sizes N"
  define K where "K = all_keys rng sd rdd"
  note a = assms [folded N_def sd_def, folded A_def K_def]
  have sizes: "sizes = map (\<lambda>(k, v). (k, PInt v)) A"
    using a(7,9) by (simp add: set_up_set_sizes_def Let_def A_def)
  have names: "map fst sizes = map fst set_sizes"
    by (simp add: sizes A_def absolute_sizes_def comp_def case_prod_unfold)
  with a(5) have dn: "distinct (map fst sizes)" by simp
  have nonneg: "\<forall>(n, s) \<in> set sizes. 0 \<le> num_val s"
    using a(6) by (auto simp: sizes)
  have "get_initial_thresholds sizes N \<delta> = Inr (spec_intervals 0 sizes N \<delta>)"
    unfolding get_initial_thresholds_def
    using initial_thresholds_loop_spec [OF a(2,3,4) dn _ nonneg, of "[]" 0] by simp
  with a(10) have ths: "ths = spec_intervals 0 sizes N \<delta>" by simp
  then have dt: "distinct (map fst ths)" using dn by (simp add: map_fst_spec_intervals)
  from global_counts_tally [OF dt a(1), of rng sd] a(11)
  have counts: "\<forall>n. map_of counts n = map_option (expected_tally K) (map_of ths n)"
    by (auto simp: K_def)
  have look: "\<forall>(n, thr) \<in> set (spec_intervals 0 sizes N \<delta>). map_of ths n = Some thr"
    using dt by (auto simp: ths)
  have le: "real_of_int v \<le> N" if "(n, v) \<in> set A" for n v
  proof -
    have "\<forall>v \<in> set (map snd A). 0 \<le> v" using a(6) by auto
    moreover have "v \<in> set (map snd A)" using that by force
    ultimately have "v \<le> sum_list (map snd A)" by (rule member_le_sum_list_int)
    then have "real_of_int v \<le> real_of_int (sum_list (map snd A))" by simp
    with a(7) show ?thesis by simp
  qed
  have br: "\<forall>(n, s) \<in> set sizes. \<exists>sz. s = PInt sz \<and> 0 \<le> sz \<and> real_of_int sz \<le> N
        \<and> (\<exists>cc w. map_of counts n = Some (cc, w) \<and> cc \<le> sz \<and> sz \<le> cc + int (length w))"
    using a(6,12) le by (fastforce simp: sizes)
  define G where "G = (\<lambda>n s. projr (final_threshold s (the (map_of counts n)) (the (map_of ths n))))"
  have G: "projr (final_threshold s (the (map_of counts n)) (the (map_of ths n))) = G n s" for n s
    by (simp add: G_def)
  note fio = final_intervals_ordered [OF a(2,3,4) counts a(8) look br, unfolded G]
  define F where "F = map (\<lambda>(n, s). (n, G n s)) sizes"
  have "final_thresholds_loop sizes counts ths [] = Inr ([] @ F)"
    unfolding F_def by (rule final_thresholds_loop_all [OF dn]) (use fio in simp_all)
  then have final: "get_final_thresholds counts sizes ths = Inr F"
    by (simp add: get_final_thresholds_def)
  have ordF: "ordered 0 F" using fio by (simp add: F_def)
  have dF: "distinct (map fst F)" using dn by (simp add: F_def comp_def case_prod_unfold)
  define out where "out = map_partitions_with_index (\<lambda>idx rows. threshold_mapper rng idx rows F sd) rdd"
  have run: "scalable_srs rng now rdd set_sizes cnt \<delta> seed reproportion = Inr out"
    unfolding scalable_srs_def Let_def
    using a(9,10,11) final by (simp add: N_def sd_def out_def)
  have "int (length (filter (\<lambda>(m, r). m = n) (concat out))) = v" if m: "(n, v) \<in> set A" for n v
  proof -
    from m have ms: "(n, PInt v) \<in> set sizes" by (force simp: sizes)
    obtain lo hi where g: "G n (PInt v) = (lo, hi)" by (cases "G n (PInt v)")
    from ms g have mF: "(n, (lo, hi)) \<in> set F" by (force simp: F_def)
    from fio ms g have cnt: "int (length (filter (\<lambda>k. \<not> k < lo \<and> k < hi) K)) = v" by fastforce
    have "length (filter (\<lambda>(m, r). m = n) (concat out))
        = length (filter (\<lambda>k. match_set k F = Some n) K)"
      unfolding out_def K_def by (rule count_output)
    also have "\<dots> = length (filter (\<lambda>k. \<not> k < lo \<and> k < hi) K)"
      using match_set_ordered [OF ordF dF mF] by simp
    finally show ?thesis using cnt by simp
  qed
  with run show ?thesis unfolding A_def N_def by blast
qed

lemma gamma1_small: "0 < spec_gamma1 (99 / 100) 2" "spec_gamma1 (99 / 100) 2 \<le> 1 / 198"
proof -
  show "0 < spec_gamma1 (99 / 100) 2" by (rule spec_gamma_pos) simp_all
  have "ln (100 / 99 :: real) \<le> 100 / 99 - 1" by (rule ln_le_minus_one) simp
  moreover have "ln (99 / 100 :: real) = - ln (100 / 99)"
    using ln_inverse [of "100 / 99 :: real"] by simp
  ultimately show "spec_gamma1 (99 / 100) 2 \<le> 1 / 198" by (simp add: spec_gamma1_def)
qed

lemma q_high_small: "spec_q_high (1 / 2) 2 (99 / 100) \<le> 9 / 10"
proof -
  define g where "g = spec_gamma1 (99 / 100) 2"
  have g: "0 < g" "g \<le> 1 / 198" using gamma1_small by (simp_all add: g_def)
  have "g * g \<le> (1 / 198) * (1 / 198)" using g by (intro mult_mono) simp_all
  with g have "g\<^sup>2 + 2 * g * (1 / 2) \<le> (1 / 10)\<^sup>2" by (simp add: power2_eq_square)
  then have "sqrt (g\<^sup>2 + 2 * g * (1 / 2)) \<le> 1 / 10" by (intro real_le_lsqrt) simp_all
  with g have "1 / 2 + g + sqrt (g\<^sup>2 + 2 * g * (1 / 2)) \<le> 9 / 10" by simp
  then show ?thesis unfolding spec_q_high_def g_def [symmetric] by simp
qed


lemma global_counts_single:
  assumes "distinct (map fst ths)"
  shows "\<exists>counts. global_counts rng [rows] ths seed = Inr counts
      \<and> (\<forall>n. map_of counts n
            = map_option (expected_tally (partition_keys rng seed 0 rows)) (map_of ths n))"
  using global_counts_tally [OF assms, of "[rows]" rng seed] by (simp add: all_keys_def)

text \<open>
  Claim C1, as stated, fails. One partition of two rows, one set of target size \<open>1\<close>, error
  bound \<open>0.99\<close> and seed \<open>2\<close>: the two keys (the first two variates of a generator seeded
  with \<open>2\<close>) are distinct and both lie above the waitlist cutoff, the waitlist is empty, and
  the output holds no pair at all.
\<close>

theorem scalable_srs_short_waitlist_counterexample:
  "scalable_srs
     (\<lambda>s j. if j = 0 then 4305595590633847 / 4503599627370496
             else 8537271035063999 / 9007199254740992)
     0 [[''a'', ''b'']] [(''s'', 1)] None (99 / 100) (Some 2) False = Inr [[]]
   \<and> absolute_sizes [(''s'', 1)] 2 = [(''s'', 1)]
   \<and> real (length (concat [[''a'', ''b'']])) = 2
   \<and> (4305595590633847 / 4503599627370496 :: real) \<noteq> 8537271035063999 / 9007199254740992"
proof -
  define rng :: "int \<Rightarrow> nat \<Rightarrow> real" where
    "rng = (\<lambda>s j. if j = 0 then 4305595590633847 / 4503599627370496
             else 8537271035063999 / 9007199254740992)"
  define ql where "ql = spec_q_low (1 / 2) 2 (99 / 100)"
  define qh where "qh = spec_q_high (1 / 2) 2 (99 / 100)"
  have ql: "0 \<le> ql" "ql \<le> 1 / 2" unfolding ql_def by (rule spec_q_low_bounds; simp)+
  have qh: "qh \<le> 9 / 10" unfolding qh_def by (rule q_high_small)
  have keys: "partition_keys rng 2 0 [''a'', ''b'']
      = [4305595590633847 / 4503599627370496, 8537271035063999 / 9007199254740992]"
    by (simp add: partition_keys_def rng_def upt_rec)
  have sizes: "set_up_set_sizes [(''s'', 1)] 2 False = Inr [(''s'', PInt 1)]"
    by (simp add: set_up_set_sizes_def absolute_sizes_def py_int_def)
  have "get_initial_thresholds [(''s'', PInt 1)] 2 (99 / 100)
      = Inr (spec_intervals 0 [(''s'', PInt 1)] 2 (99 / 100))"
    by (rule get_initial_thresholds_spec) simp_all
  then have ths: "get_initial_thresholds [(''s'', PInt 1)] 2 (99 / 100) = Inr [(''s'', (0, ql, qh))]"
    by (simp add: ql_def qh_def)
  from global_counts_single [of "[(''s'', (0, ql, qh))]" rng "[''a'', ''b'']" 2]
  obtain counts where
    gc: "global_counts rng [[''a'', ''b'']] [(''s'', (0, ql, qh))] 2 = Inr counts"
    and mc: "map_of counts ''s'' = Some (expected_tally (partition_keys rng 2 0 [''a'', ''b'']) (0, ql, qh))"
    by auto
  have "expected_tally (partition_keys rng 2 0 [''a'', ''b'']) (0, ql, qh) = (0, [])"
    using ql qh by (simp add: keys expected_tally_eq)
  with mc have mc': "map_of counts ''s'' = Some (0, [])" by simp
  have final: "get_final_thresholds counts [(''s'', PInt 1)] [(''s'', (0, ql, qh))] = Inr [(''s'', (0, qh))]"
    by (simp add: get_final_thresholds_def mc' final_threshold_def)
  have out: "map_partitions_with_index (\<lambda>idx rows. threshold_mapper rng idx rows [(''s'', (0, qh))] 2)
      [[''a'', ''b'']] = [[]]"
    using qh by (simp add: map_partitions_with_index_def threshold_mapper_def keys List.map_filter_simps)
  have "scalable_srs rng 0 [[''a'', ''b'']] [(''s'', 1)] None (99 / 100) (Some 2) False = Inr [[]]"
    unfolding scalable_srs_def Let_def
    by (simp add: resolve_count_def resolve_seed_def py_int_def sizes ths gc final out)
  then show ?thesis
    unfolding rng_def by (simp add: absolute_sizes_def py_int_def)
qed


lemma ln_099: "1 / 100 \<le> - ln (99 / 100 :: real)" "- ln (99 / 100 :: real) \<le> 1 / 99"
proof -
  have "ln (99 / 100 :: real) \<le> 99 / 100 - 1" by (rule ln_le_minus_one) simp
  then show "1 / 100 \<le> - ln (99 / 100 :: real)" by simp
  have "ln (100 / 99 :: real) \<le> 100 / 99 - 1" by (rule ln_le_minus_one) simp
  moreover have "ln (99 / 100 :: real) = - ln (100 / 99)"
    using ln_inverse [of "100 / 99 :: real"] by simp
  ultimately show "- ln (99 / 100 :: real) \<le> 1 / 99" by simp
qed

lemma q_high_six_rows:
  "46 / 125 \<le> spec_q_high (1 / 3) 6 (99 / 100)" "spec_q_high (1 / 3) 6 (99 / 100) \<le> 369 / 1000"
proof -
  define g where "g = spec_gamma1 (99 / 100) 6"
  define r where "r = sqrt (g\<^sup>2 + 2 * g * (1 / 3))"
  have g: "1 / 600 \<le> g" "g \<le> 1 / 594"
    using ln_099 by (simp_all add: g_def spec_gamma1_def)
  have q: "spec_q_high (1 / 3) 6 (99 / 100) = min 1 (1 / 3 + g + r)"
    by (simp add: spec_q_high_def g_def r_def)
  have "0 + 1 / 900 \<le> g\<^sup>2 + 2 * g * (1 / 3)" by (rule add_mono) (use g in simp_all)
  then have "(1 / 30)\<^sup>2 \<le> g\<^sup>2 + 2 * g * (1 / 3)" by (simp add: power2_eq_square)
  then have lo: "1 / 30 \<le> r" unfolding r_def by (rule real_le_rsqrt)
  have "g * g \<le> (1 / 594) * (1 / 594)" using g by (intro mult_mono) simp_all
  with g have "g\<^sup>2 + 2 * g * (1 / 3) \<le> (339 / 10000)\<^sup>2" by (simp add: power2_eq_square)
  then have hi: "r \<le> 339 / 10000" unfolding r_def by (intro real_le_lsqrt) simp_all
  from g lo show "46 / 125 \<le> spec_q_high (1 / 3) 6 (99 / 100)" unfolding q by linarith
  from g hi show "spec_q_high (1 / 3) 6 (99 / 100) \<le> 369 / 1000" unfolding q by linarith
qed

lemma q_low_six_rows:
  "299 / 1000 \<le> spec_q_low (1 / 3) 6 (99 / 100)" "spec_q_low (1 / 3) 6 (99 / 100) \<le> 302 / 1000"
proof -
  define g where "g = spec_gamma2 (99 / 100) 6"
  define r where "r = sqrt (g\<^sup>2 + 3 * g * (1 / 3))"
  have g: "1 / 900 \<le> g" "g \<le> 1 / 891"
    using ln_099 by (simp_all add: g_def spec_gamma2_def)
  have q: "spec_q_low (1 / 3) 6 (99 / 100) = max 0 (1 / 3 + g - r)"
    by (simp add: spec_q_low_def g_def r_def)
  have "0 + 1 / 900 \<le> g\<^sup>2 + 3 * g * (1 / 3)" by (rule add_mono) (use g in simp_all)
  then have "(1 / 30)\<^sup>2 \<le> g\<^sup>2 + 3 * g * (1 / 3)" by (simp add: power2_eq_square)
  then have lo: "1 / 30 \<le> r" unfolding r_def by (rule real_le_rsqrt)
  have "g * g \<le> (1 / 891) * (1 / 891)" using g by (intro mult_mono) simp_all
  with g have "g\<^sup>2 + 3 * g * (1 / 3) \<le> (7 / 200)\<^sup>2" by (simp add: power2_eq_square)
  then have hi: "r \<le> 7 / 200" unfolding r_def by (intro real_le_lsqrt) simp_all
  from g hi show "299 / 1000 \<le> spec_q_low (1 / 3) 6 (99 / 100)" unfolding q by linarith
  from g lo show "spec_q_low (1 / 3) 6 (99 / 100) \<le> 302 / 1000" unfolding q by linarith
qed

text \<open>
  A run that the theorem applies to: seed \<open>4106\<close>, two partitions of three rows, two sets
  of target size \<open>2\<close>, error bound \<open>0.99\<close>. The first pass accepts one key for each set
  and waitlists two, one from either partition; the targets lie strictly inside the
  brackets, so both final cutoffs are chosen inside the waitlists.
\<close>

theorem scalable_srs_exact_sizes_witness:
  "global_counts seeded_4106 [[''r0'', ''r1'', ''r2''], [''r3'', ''r4'', ''r5'']]
       (spec_intervals 0 [(''a'', PInt 2), (''b'', PInt 2)] 6 (99 / 100)) 4106
     = Inr [(''a'', (1, [3171268416816275 / 9007199254740992, 198235824776649 / 562949953421312])), (''b'', (1, [810902139770241 / 1125899906842624, 6236116485676121 / 9007199254740992]))]
   \<and> scalable_srs seeded_4106 0 [[''r0'', ''r1'', ''r2''], [''r3'', ''r4'', ''r5'']]
       [(''a'', 2), (''b'', 2)] None (99 / 100) (Some 4106) False
     = Inr [[(''a'', ''r0''), (''b'', ''r2'')], [(''a'', ''r4''), (''b'', ''r5'')]]
   \<and> int (length (filter (\<lambda>(m, r). m = ''a'')
         (concat [[(''a'', ''r0''), (''b'', ''r2'')], [(''a'', ''r4''), (''b'', ''r5'')]]))) = 2
   \<and> int (length (filter (\<lambda>(m, r). m = ''b'')
         (concat [[(''a'', ''r0''), (''b'', ''r2'')], [(''a'', ''r4''), (''b'', ''r5'')]]))) = 2"
proof -
  define k00 :: real where "k00 = 3171268416816275 / 9007199254740992"
  define k01 :: real where "k01 = 810902139770241 / 1125899906842624"
  define k02 :: real where "k02 = 253099487124403 / 562949953421312"
  define k10 :: real where "k10 = 198235824776649 / 562949953421312"
  define k11 :: real where "k11 = 329684317425895 / 9007199254740992"
  define k12 :: real where "k12 = 6236116485676121 / 9007199254740992"
  note kd = k00_def k01_def k02_def k10_def k11_def k12_def
  have chain: "0 < k11" "k11 < k00" "k00 < k10" "k10 < k02" "k02 < k12" "k12 < k01"
    by (simp_all add: kd)
  have near: "k11 < 299 / 1000" "302 / 1000 < k00" "k10 < 46 / 125" "369 / 1000 < k02"
    "k02 < 667 / 1000" "671 / 1000 < k12" "k01 < 736 / 1000"
    by (simp_all add: kd)
  define rdd where "rdd = [[''r0'', ''r1'', ''r2''], [''r3'', ''r4'', ''r5'']]"
  define ql where "ql = spec_q_low (1 / 3) 6 (99 / 100)"
  define qh where "qh = spec_q_high (1 / 3) 6 (99 / 100)"
  define qh2 where "qh2 = qh + qh"
  have ql: "299 / 1000 \<le> ql" "ql \<le> 302 / 1000" unfolding ql_def by (rule q_low_six_rows)+
  have qh: "46 / 125 \<le> qh" "qh \<le> 369 / 1000" unfolding qh_def by (rule q_high_six_rows)+
  have cmp:
    "\<not> k00 < ql" "k00 < qh" "k00 < qh + ql" "k00 < qh2"
    "\<not> k01 < ql" "\<not> k01 < qh" "\<not> k01 < qh + ql" "k01 < qh2"
    "\<not> k02 < ql" "\<not> k02 < qh" "k02 < qh + ql" "k02 < qh2"
    "\<not> k10 < ql" "k10 < qh" "k10 < qh + ql" "k10 < qh2"
    "k11 < ql" "k11 < qh" "k11 < qh + ql" "k11 < qh2"
    "\<not> k12 < ql" "\<not> k12 < qh" "\<not> k12 < qh + ql" "k12 < qh2"
    using ql qh chain near unfolding qh2_def by linarith+
  have N: "resolve_count None rdd = 6" by (simp add: resolve_count_def rdd_def)
  have sd: "resolve_seed (Some 4106) 0 = 4106" by (simp add: resolve_seed_def py_int_def)
  have A: "absolute_sizes [(''a'', 2), (''b'', 2)] 6 = [(''a'', 2), (''b'', 2)]"
    by (simp add: absolute_sizes_def py_int_def)
  have keys0: "partition_keys seeded_4106 4106 0 [''r0'', ''r1'', ''r2''] = [k00, k01, k02]"
    by (simp add: partition_keys_def seeded_4106_def upt_rec kd)
  have keys1: "partition_keys seeded_4106 4106 1 [''r3'', ''r4'', ''r5''] = [k10, k11, k12]"
    by (simp add: partition_keys_def seeded_4106_def upt_rec kd)
  have sizes: "set_up_set_sizes [(''a'', 2), (''b'', 2)] 6 False = Inr [(''a'', PInt 2), (''b'', PInt 2)]"
    by (simp add: set_up_set_sizes_def A)
  have si: "spec_intervals 0 [(''a'', PInt 2), (''b'', PInt 2)] 6 (99 / 100)
      = [(''a'', (0, ql, qh)), (''b'', (qh, qh + ql, qh2))]"
    by (simp add: ql_def qh_def qh2_def)
  have "get_initial_thresholds [(''a'', PInt 2), (''b'', PInt 2)] 6 (99 / 100)
      = Inr (spec_intervals 0 [(''a'', PInt 2), (''b'', PInt 2)] 6 (99 / 100))"
    by (rule get_initial_thresholds_spec) simp_all
  then have ths: "get_initial_thresholds [(''a'', PInt 2), (''b'', PInt 2)] 6 (99 / 100)
      = Inr [(''a'', (0, ql, qh)), (''b'', (qh, qh + ql, qh2))]"
    by (simp only: si)
  have d: "distinct (map fst [(''a'', (0, ql, qh)), (''b'', (qh, qh + ql, qh2))])" by simp
  have t0: "threshold_accumulator seeded_4106 0 [''r0'', ''r1'', ''r2'']
        [(''a'', (0, ql, qh)), (''b'', (qh, qh + ql, qh2))] 4106
      = [(''a'', (0, [k00])), (''b'', (1, [k01]))]"
    unfolding threshold_accumulator_tally [OF d] keys0
    using chain by (simp add: expected_tally_eq cmp)
  have t1: "threshold_accumulator seeded_4106 1 [''r3'', ''r4'', ''r5'']
        [(''a'', (0, ql, qh)), (''b'', (qh, qh + ql, qh2))] 4106
      = [(''a'', (1, [k10])), (''b'', (0, [k12]))]"
    unfolding threshold_accumulator_tally [OF d] keys1
    using chain by (simp add: expected_tally_eq cmp)
  have gc: "global_counts seeded_4106 rdd [(''a'', (0, ql, qh)), (''b'', (qh, qh + ql, qh2))] 4106
      = Inr [(''a'', (1, [k00, k10])), (''b'', (1, [k01, k12]))]"
    by (simp add: global_counts_def map_partitions_with_index_def rdd_def t0 t1
        dict_addition_reducer_def)
  have n: "nat (2 - 1 + 1) = Suc (Suc 0)" by simp
  have final: "get_final_thresholds [(''a'', (1, [k00, k10])), (''b'', (1, [k01, k12]))]
        [(''a'', PInt 2), (''b'', PInt 2)] [(''a'', (0, ql, qh)), (''b'', (qh, qh + ql, qh2))]
      = Inr [(''a'', (0, k10)), (''b'', (qh, k01))]"
    using chain by (simp add: get_final_thresholds_def final_threshold_def nsmallest_def n)
  have m0: "threshold_mapper seeded_4106 0 [''r0'', ''r1'', ''r2'']
        [(''a'', (0, k10)), (''b'', (qh, k01))] 4106 = [(''a'', ''r0''), (''b'', ''r2'')]"
    unfolding threshold_mapper_def keys0 using chain by (simp add: cmp)
  have m1: "threshold_mapper seeded_4106 1 [''r3'', ''r4'', ''r5'']
        [(''a'', (0, k10)), (''b'', (qh, k01))] 4106 = [(''a'', ''r4''), (''b'', ''r5'')]"
    unfolding threshold_mapper_def keys1 using chain by (simp add: cmp)
  have run: "scalable_srs seeded_4106 0 rdd [(''a'', 2), (''b'', 2)] None (99 / 100) (Some 4106) False
      = Inr [[(''a'', ''r0''), (''b'', ''r2'')], [(''a'', ''r4''), (''b'', ''r5'')]]"
    unfolding scalable_srs_def Let_def N sd
    by (simp add: sizes ths gc final) (simp add: map_partitions_with_index_def rdd_def m0 m1)
  have "\<exists>out. scalable_srs seeded_4106 0 rdd [(''a'', 2), (''b'', 2)] None (99 / 100) (Some 4106) False
        = Inr out
     \<and> (\<forall>(n, v) \<in> set (absolute_sizes [(''a'', 2), (''b'', 2)] (resolve_count None rdd)).
           int (length (filter (\<lambda>(m, r). m = n) (concat out))) = v)"
  proof (rule scalable_srs_exact_sizes)
    show "rdd \<noteq> []" by (simp add: rdd_def)
    show "0 < resolve_count None rdd" by (simp add: N)
    show "(0 :: real) < 99 / 100" "(99 / 100 :: real) < 1" by simp_all
    show "distinct (map fst [(''a'', 2 :: real), (''b'', 2)])" by simp
    show "\<forall>(n, v) \<in> set (absolute_sizes [(''a'', 2), (''b'', 2)] (resolve_count None rdd)). 0 \<le> v"
      by (simp add: N A)
    show "real_of_int (sum_list (map snd (absolute_sizes [(''a'', 2), (''b'', 2)] (resolve_count None rdd))))
        \<le> resolve_count None rdd"
      by (simp add: N A)
    show "distinct (all_keys seeded_4106 (resolve_seed (Some 4106) 0) rdd)"
      unfolding sd using chain by (simp add: all_keys_def rdd_def keys0 keys1)
    show "set_up_set_sizes [(''a'', 2), (''b'', 2)] (resolve_count None rdd) False
        = Inr [(''a'', PInt 2), (''b'', PInt 2)]"
      unfolding N by (rule sizes)
    show "get_initial_thresholds [(''a'', PInt 2), (''b'', PInt 2)] (resolve_count None rdd) (99 / 100)
        = Inr [(''a'', (0, ql, qh)), (''b'', (qh, qh + ql, qh2))]"
      unfolding N by (rule ths)
    show "global_counts seeded_4106 rdd [(''a'', (0, ql, qh)), (''b'', (qh, qh + ql, qh2))]
        (resolve_seed (Some 4106) 0) = Inr [(''a'', (1, [k00, k10])), (''b'', (1, [k01, k12]))]"
      unfolding sd by (rule gc)
    show "\<forall>(n, v) \<in> set (absolute_sizes [(''a'', 2), (''b'', 2)] (resolve_count None rdd)).
        \<exists>c w. map_of [(''a'', (1, [k00, k10])), (''b'', (1, [k01, k12]))] n = Some (c, w)
          \<and> c \<le> v \<and> v \<le> c + int (length w)"
      by (simp add: N A)
  qed
  with run have "int (length (filter (\<lambda>(m, r). m = ''a'')
         (concat [[(''a'', ''r0''), (''b'', ''r2'')], [(''a'', ''r4''), (''b'', ''r5'')]]))) = 2"
    and "int (length (filter (\<lambda>(m, r). m = ''b'')
         (concat [[(''a'', ''r0''), (''b'', ''r2'')], [(''a'', ''r4''), (''b'', ''r5'')]]))) = 2"
    by (auto simp: N A)
  with run gc show ?thesis unfolding rdd_def si kd by blast
qed

lemma ln_default_delta_4: "ln (5 / 100000 :: real) \<le> - 4"
proof -
  have "exp (4 :: real) = (exp 1 * exp 1) * (exp 1 * exp 1)" by (simp add: exp_add [symmetric])
  also have "\<dots> \<le> (3 * 3) * (3 * 3)" by (intro mult_mono exp_le) simp_all
  finally have "exp (4 :: real) \<le> 20000" by simp
  then have "(4 :: real) \<le> ln 20000" by (simp add: ln_ge_iff)
  moreover have "ln (5 / 100000 :: real) = - ln 20000"
    using ln_inverse [of "20000 :: real"] by simp
  ultimately show ?thesis by simp
qed

lemma default_delta_four_rows:
  "spec_q_low (1 / 2) 4 (1 / 20000) = 0" "spec_q_high (1 / 2) 4 (1 / 20000) = 1"
proof -
  have l: "ln (1 / 20000 :: real) \<le> - 4" using ln_default_delta_4 by simp
  have g1: "1 \<le> spec_gamma1 (1 / 20000) 4" and g2: "2 / 3 \<le> spec_gamma2 (1 / 20000) 4"
    using l by (simp_all add: spec_gamma1_def spec_gamma2_def)
  show "spec_q_low (1 / 2) 4 (1 / 20000) = 0" by (rule spec_q_low_zero) (use g2 in simp_all)
  show "spec_q_high (1 / 2) 4 (1 / 20000) = 1" by (rule spec_q_high_one) (use g1 in simp_all)
qed

text \<open>
  Claim C3, on the reproportioned path. Reproportioning returns the sizes as floats, also
  when their values are whole numbers. For a set in the mid-waitlist branch
  (\<open>0 < required < len(waitlist)\<close>, here \<open>required = 2.0\<close> against four distinct waitlisted
  keys) \<^verbatim>\<open>nsmallest(required + 1, waitlist)\<close> is then called with a float count and raises
  \<^verbatim>\<open>TypeError\<close>: no cutoff is chosen, and \<open>scalable_srs\<close> fails. The keys are the first four
  variates of \<^verbatim>\<open>random.Random(2)\<close>.
\<close>

theorem reproportioned_sizes_raise_type_error:
  "set_up_set_sizes [(''a'', 4), (''b'', 4)] 4 True
     = Inr [(''a'', PFloat 2), (''b'', PFloat 2)]
   \<and> get_final_thresholds
       [(''a'', (0, [4305595590633847 / 4503599627370496, 8537271035063999 / 9007199254740992,
                    509369437243495 / 9007199254740992, 191114742885955 / 2251799813685248])),
        (''b'', (0, []))]
       [(''a'', PFloat 2), (''b'', PFloat 2)]
       [(''a'', (0, 0, 1)), (''b'', (1, 1, 2))] = Inl TypeError
   \<and> scalable_srs
       (\<lambda>s j. [4305595590633847 / 4503599627370496, 8537271035063999 / 9007199254740992,
               509369437243495 / 9007199254740992, 191114742885955 / 2251799813685248] ! j)
       0 [[''r0'', ''r1'', ''r2'', ''r3'']] [(''a'', 4), (''b'', 4)] None (5 / 100000) (Some 2) True
     = Inl TypeError"
proof -
  define rng :: "int \<Rightarrow> nat \<Rightarrow> real" where
    "rng = (\<lambda>s j. [4305595590633847 / 4503599627370496, 8537271035063999 / 9007199254740992,
               509369437243495 / 9007199254740992, 191114742885955 / 2251799813685248] ! j)"
  have sizes: "set_up_set_sizes [(''a'', 4), (''b'', 4)] 4 True
     = Inr [(''a'', PFloat 2), (''b'', PFloat 2)]"
    by (simp add: set_up_set_sizes_def absolute_sizes_def py_int_def)
  have final: "get_final_thresholds
       [(''a'', (0, [4305595590633847 / 4503599627370496, 8537271035063999 / 9007199254740992,
                    509369437243495 / 9007199254740992, 191114742885955 / 2251799813685248])),
        (''b'', (0, []))]
       [(''a'', PFloat 2), (''b'', PFloat 2)]
       [(''a'', (0, 0, 1)), (''b'', (1, 1, 2))] = Inl TypeError"
    by (simp add: get_final_thresholds_def final_threshold_def)
  have keys: "partition_keys rng 2 0 [''r0'', ''r1'', ''r2'', ''r3'']
      = [4305595590633847 / 4503599627370496, 8537271035063999 / 9007199254740992,
         509369437243495 / 9007199254740992, 191114742885955 / 2251799813685248]"
    by (simp add: partition_keys_def rng_def upt_rec)
  have "get_initial_thresholds [(''a'', PFloat 2), (''b'', PFloat 2)] 4 (1 / 20000)
      = Inr (spec_intervals 0 [(''a'', PFloat 2), (''b'', PFloat 2)] 4 (1 / 20000))"
    by (rule get_initial_thresholds_spec) simp_all
  then have ths: "get_initial_thresholds [(''a'', PFloat 2), (''b'', PFloat 2)] 4 (1 / 20000)
      = Inr [(''a'', (0, 0, 1)), (''b'', (1, 1, 2))]"
    by (simp add: default_delta_four_rows)
  from global_counts_single [of "[(''a'', (0, 0, 1)), (''b'', (1, 1, 2))]" rng
      "[''r0'', ''r1'', ''r2'', ''r3'']" 2]
  obtain counts where
    gc: "global_counts rng [[''r0'', ''r1'', ''r2'', ''r3'']] [(''a'', (0, 0, 1)), (''b'', (1, 1, 2))] 2
          = Inr counts"
    and mc: "map_of counts ''a''
          = Some (expected_tally (partition_keys rng 2 0 [''r0'', ''r1'', ''r2'', ''r3'']) (0, 0, 1))"
    by auto
  have mc': "map_of counts ''a''
      = Some (0, [4305595590633847 / 4503599627370496, 8537271035063999 / 9007199254740992,
                  509369437243495 / 9007199254740992, 191114742885955 / 2251799813685248])"
    by (simp add: mc keys expected_tally_eq)
  have "get_final_thresholds counts [(''a'', PFloat 2), (''b'', PFloat 2)]
      [(''a'', (0, 0, 1)), (''b'', (1, 1, 2))] = Inl TypeError"
    by (simp add: get_final_thresholds_def mc' final_threshold_def)
  then have "scalable_srs rng 0 [[''r0'', ''r1'', ''r2'', ''r3'']] [(''a'', 4), (''b'', 4)] None
      (5 / 100000) (Some 2) True = Inl TypeError"
    unfolding scalable_srs_def Let_def
    by (simp add: resolve_count_def resolve_seed_def py_int_def sizes ths gc)
  with sizes final show ?thesis unfolding rng_def by simp
qed

section \<open>Properties of the train/test variant\<close>

lemma select_keys_waitlist:
  "set (train_waitlist (snd (select_keys ks tq1 tq2 eq1 eq2 accs)))
     = set (train_waitlist accs) \<union> {k \<in> set ks. \<not> k < tq2 \<and> k < tq1}"
proof (induction ks arbitrary: accs)
  case Nil
  show ?case by simp
next
  case (Cons k ks)
  define accs1 where "accs1 =
            (if k < tq2 then
               accs\<lparr>train_accepted_items := train_accepted_items accs + 1\<rparr>
             else if k < tq1 then
               accs\<lparr>train_waitlist := train_waitlist accs @ [k]\<rparr>
             else accs)"
  define accs2 where "accs2 =
            (if k < eq2 then
               accs1\<lparr>test_accepted_items := test_accepted_items accs1 + 1\<rparr>
             else accs1)"
  have w: "train_waitlist accs2
      = (if \<not> k < tq2 \<and> k < tq1 then train_waitlist accs @ [k] else train_waitlist accs)"
    by (simp add: accs1_def accs2_def)
  have "snd (select_keys (k # ks) tq1 tq2 eq1 eq2 accs) = snd (select_keys ks tq1 tq2 eq1 eq2 accs2)"
    unfolding accs1_def accs2_def by (simp add: Let_def split: prod.splits)
  then show ?case using Cons.IH [of accs2] w by auto
qed

lemma select_partitions_waitlist:
  "set (train_waitlist (snd (select_partitions rng ps tq1 tq2 eq1 eq2 seed accs)))
     = set (train_waitlist accs)
       \<union> {k. \<exists>(idx, rows) \<in> set ps. k \<in> set (partition_keys rng seed (int idx) rows)
              \<and> \<not> k < tq2 \<and> k < tq1}"
proof (induction ps arbitrary: accs)
  case Nil
  show ?case by simp
next
  case (Cons p ps)
  obtain idx rows where p: "p = (idx, rows)" by (cases p)
  obtain y a1 where s1: "select_train_test_ad_events rng (int idx) rows tq1 tq2 eq1 eq2 seed accs = (y, a1)"
    by (cases "select_train_test_ad_events rng (int idx) rows tq1 tq2 eq1 eq2 seed accs")
  then have a1: "set (train_waitlist a1) = set (train_waitlist accs)
       \<union> {k \<in> set (partition_keys rng seed (int idx) rows). \<not> k < tq2 \<and> k < tq1}"
    using select_keys_waitlist [of "partition_keys rng seed (int idx) rows" tq1 tq2 eq1 eq2 accs]
    by (simp add: select_train_test_ad_events_def)
  obtain z a2 where s2: "select_partitions rng ps tq1 tq2 eq1 eq2 seed a1 = (z, a2)"
    by (cases "select_partitions rng ps tq1 tq2 eq1 eq2 seed a1")
  from Cons.IH [of a1] s2 have "set (train_waitlist a2) = set (train_waitlist a1)
       \<union> {k. \<exists>(idx, rows) \<in> set ps. k \<in> set (partition_keys rng seed (int idx) rows)
              \<and> \<not> k < tq2 \<and> k < tq1}"
    by simp
  with a1 show ?case by (auto simp: p s1 s2)
qed

lemma sorted_prefix_gap:
  fixes xs :: "real list"
  assumes "sorted xs" and "2 \<le> m" and "m \<le> length xs" and "k \<in> set xs"
  shows "\<not> (xs ! (m - 2) < k \<and> k < xs ! (m - 1))"
proof -
  from assms(4) obtain i where i: "i < length xs" "k = xs ! i" by (auto simp: in_set_conv_nth)
  show ?thesis
  proof (cases "i \<le> m - 2")
    case True
    with assms i have "xs ! i \<le> xs ! (m - 2)" by (intro sorted_nth_mono) auto
    with i show ?thesis by simp
  next
    case False
    then have "m - 1 \<le> i" by simp
    with assms i have "xs ! (m - 1) \<le> xs ! i" by (intro sorted_nth_mono) auto
    with i show ?thesis by simp
  qed
qed

lemma thresholds_leave_no_key:
  assumes "compute_acceptance_rejection_thresholds num W q1 q2 = Inr (tup, tlo)"
    and "set W = {k \<in> K. \<not> k < q2 \<and> k < q1}"
    and "k \<in> K"
  shows "\<not> (tlo < k \<and> k < tup)"
proof (cases "num > int (length W)")
  case True
  with assms(1) show ?thesis by (simp add: compute_acceptance_rejection_thresholds_def)
next
  case False
  show ?thesis
  proof (cases "num > 0")
    case n: False
    with False assms(1) show ?thesis by (simp add: compute_acceptance_rejection_thresholds_def)
  next
    case n: True
    define s where "s = take (nat (num + 1)) (sort W)"
    define m where "m = length s"
    from assms(1) False n have m2: "2 \<le> m" and tup: "tup = s ! (m - 1)" and tlo: "tlo = s ! (m - 2)"
      by (auto simp: compute_acceptance_rejection_thresholds_def nsmallest_def Let_def s_def m_def
          split: if_splits)
    have ml: "m \<le> length (sort W)" by (simp add: m_def s_def)
    from m2 have "m - 1 < m" "m - 2 < m" by simp_all
    then have nth: "s ! (m - 1) = sort W ! (m - 1)" "s ! (m - 2) = sort W ! (m - 2)"
      unfolding s_def m_def by simp_all
    have inW: "s ! (m - 1) \<in> set W" "s ! (m - 2) \<in> set W"
    proof -
      have "m - 1 < length (sort W)" "m - 2 < length (sort W)" using m2 ml by simp_all
      then have "sort W ! (m - 1) \<in> set (sort W)" "sort W ! (m - 2) \<in> set (sort W)"
        by (simp_all only: nth_mem)
      then have "s ! (m - 1) \<in> set (sort W)" "s ! (m - 2) \<in> set (sort W)"
        unfolding nth by blast+
      then show "s ! (m - 1) \<in> set W" "s ! (m - 2) \<in> set W" by simp_all
    qed
    show ?thesis
    proof
      assume a: "tlo < k \<and> k < tup"
      from inW assms(2) tup tlo have "\<not> tlo < q2" "tup < q1" by auto
      with a have "\<not> k < q2" "k < q1" by auto
      with assms(2,3) have "k \<in> set (sort W)" by simp
      from sorted_prefix_gap [OF _ m2 ml this] a tup tlo nth show False by simp
    qed
  qed
qed

lemma enumerate_member:
  "idx < length xs \<Longrightarrow> (idx, xs ! idx) \<in> set (enumerate 0 xs)"
  by (auto simp: in_set_enumerate_eq)

lemma key_in_partition_keys:
  "j < length rows \<Longrightarrow> rng (seed + idx) j \<in> set (partition_keys rng seed idx rows)"
  by (simp add: partition_keys_def)

lemma split_thresholds_no_shared_key:
  assumes "split_thresholds rng now train_size test_size input_logs = Inr (tup, tlo, teu)"
    and "idx < length input_logs" and "j < length (input_logs ! idx)"
  shows "\<not> (passes (rng (py_round now + int idx) j) MinusInfinity tup
          \<and> passes (rng (py_round now + int idx) j) (Finite tlo) teu)"
proof -
  define seed where "seed = py_round now"
  define K where "K = {k. \<exists>(idx, rows) \<in> set (enumerate 0 input_logs).
      k \<in> set (partition_keys rng seed (int idx) rows)}"
  from assms(1) obtain sz1 tq1 tq2 eq1 eq2 tw accs where
    sel: "select_partitions rng (enumerate 0 input_logs) tq1 tq2 eq1 eq2 seed
            \<lparr>train_accepted_items = 0, test_accepted_items = 0, train_waitlist = []\<rparr> = (tw, accs)"
    and thr: "compute_acceptance_rejection_thresholds (py_int sz1 - train_accepted_items accs)
            (train_waitlist accs) tq1 tq2 = Inr (tup, tlo)"
    unfolding split_thresholds_def Let_def seed_def
    by (auto split: prod.splits sum.splits)
  from select_partitions_waitlist [of rng "enumerate 0 input_logs" tq1 tq2 eq1 eq2 seed
      "\<lparr>train_accepted_items = 0, test_accepted_items = 0, train_waitlist = []\<rparr>"] sel
  have W: "set (train_waitlist accs) = {k \<in> K. \<not> k < tq2 \<and> k < tq1}"
    by (auto simp: K_def)
  have "rng (seed + int idx) j \<in> K"
    unfolding K_def using enumerate_member [OF assms(2)] key_in_partition_keys [OF assms(3)]
    by blast
  from thresholds_leave_no_key [OF thr W this] show ?thesis
    by (auto simp: passes_def seed_def)
qed


lemma distinct_concat_position:
  "distinct (concat xss) \<Longrightarrow> i < length xss \<Longrightarrow> i' < length xss \<Longrightarrow>
     j < length (xss ! i) \<Longrightarrow> j' < length (xss ! i') \<Longrightarrow> xss ! i ! j = xss ! i' ! j' \<Longrightarrow>
     i = i' \<and> j = j'"
proof (induction xss arbitrary: i i')
  case Nil
  then show ?case by simp
next
  case (Cons xs rest)
  from Cons.prems(1) have d: "distinct xs" "distinct (concat rest)"
    and dj: "set xs \<inter> set (concat rest) = {}" by auto
  have mem: "rest ! a ! b \<in> set (concat rest)" if "a < length rest" "b < length (rest ! a)" for a b
  proof -
    from that have "rest ! a \<in> set rest" "rest ! a ! b \<in> set (rest ! a)" by simp_all
    then show ?thesis by auto
  qed
  show ?case
  proof (cases i)
    case 0
    show ?thesis
    proof (cases i')
      case z: 0
      with 0 Cons.prems d show ?thesis by (simp add: nth_eq_iff_index_eq)
    next
      case (Suc a)
      with 0 Cons.prems have j: "j < length xs" and a: "a < length rest" "j' < length (rest ! a)"
        and eq: "xs ! j = rest ! a ! j'" by simp_all
      have "xs ! j \<in> set xs" using j by simp
      moreover have "xs ! j \<in> set (concat rest)" using mem [OF a] eq by simp
      ultimately show ?thesis using dj by blast
    qed
  next
    case (Suc a)
    show ?thesis
    proof (cases i')
      case 0
      with Suc Cons.prems have j: "j' < length xs" and a: "a < length rest" "j < length (rest ! a)"
        and eq: "rest ! a ! j = xs ! j'" by simp_all
      have "xs ! j' \<in> set xs" using j by simp
      moreover have "xs ! j' \<in> set (concat rest)" using mem [OF a] eq by simp
      ultimately show ?thesis using dj by blast
    next
      case s: (Suc b)
      with Suc Cons.prems Cons.IH [OF d(2), of a b] show ?thesis by simp
    qed
  qed
qed

lemma filter_ad_events_member:
  "r \<in> set (filter_ad_events rng idx rows lower upper seed) \<Longrightarrow>
     \<exists>j < length rows. r = rows ! j \<and> passes (rng (seed + idx) j) lower upper"
proof -
  assume "r \<in> set (filter_ad_events rng idx rows lower upper seed)"
  then obtain k where "(k, r) \<in> set (zip (partition_keys rng seed idx rows) rows)"
    and p: "passes k lower upper"
    by (auto simp: filter_ad_events_def)
  then obtain j where "j < length rows" "k = partition_keys rng seed idx rows ! j" "r = rows ! j"
    by (auto simp: in_set_zip)
  with p show ?thesis by (auto simp: partition_keys_def)
qed

lemma map_partitions_member:
  "r \<in> set (concat (map_partitions_with_index f xss)) \<Longrightarrow>
     \<exists>idx < length xss. r \<in> set (f (int idx) (xss ! idx))"
  by (auto simp: map_partitions_with_index_def in_set_enumerate_eq)


lemma small_population_thresholds:
  assumes "0 < N" and "0 \<le> S" and "S \<le> 20 / 3" and "N \<le> S + 10"
  shows "compute_selection_waitlist_thresholds N S = Inr (1, 0)"
proof -
  define t1 where "t1 = 20 / (3 * N)"
  define t2 where "t2 = 10 / N"
  define p where "p = S / N"
  from assms have p0: "0 \<le> p" and t1: "0 < t1" and t2: "0 < t2"
    by (simp_all add: p_def t1_def t2_def)
  from assms have pt1: "p \<le> t1" by (simp add: p_def t1_def field_simps)
  from assms have pt2: "1 \<le> p + t2" by (simp add: p_def t2_def field_simps)
  have low: "0 \<le> t1 * t1 + 3 * t1 * p" and high: "0 \<le> t2 * t2 + 2 * t2 * p"
    using p0 t1 t2 by simp_all
  have "(p + t1)\<^sup>2 = t1 * t1 + 2 * t1 * p + p * p" by (simp add: power2_eq_square algebra_simps)
  also have "\<dots> \<le> t1 * t1 + 2 * t1 * p + t1 * p"
    using pt1 p0 by (simp add: mult_left_mono mult.commute)
  finally have "(p + t1)\<^sup>2 \<le> t1 * t1 + 3 * t1 * p" by (simp add: algebra_simps)
  then have "p + t1 \<le> sqrt (t1 * t1 + 3 * t1 * p)" by (rule real_le_rsqrt)
  then have q2: "max 0 (p + t1 - sqrt (t1 * t1 + 3 * t1 * p)) = 0" by simp
  have "0 \<le> sqrt (t2 * t2 + 2 * t2 * p)" using high by simp
  with pt2 have q1: "min 1 (p + t2 + sqrt (t2 * t2 + 2 * t2 * p)) = 1" by linarith
  have "compute_selection_waitlist_thresholds N S =
      Inr (min 1 (p + t2 + sqrt (t2 * t2 + 2 * t2 * p)), max 0 (p + t1 - sqrt (t1 * t1 + 3 * t1 * p)))"
    using assms(1) low high
    unfolding compute_selection_waitlist_thresholds_def Let_def t1_def [symmetric] t2_def [symmetric]
      p_def [symmetric]
    by (simp add: not_less [symmetric])
  then show ?thesis by (simp only: q1 q2)
qed

lemma selection_thresholds_3_1: "compute_selection_waitlist_thresholds 3 1 = Inr (1, 0)"
  by (rule small_population_thresholds) simp_all

lemma selection_thresholds_3_2: "compute_selection_waitlist_thresholds 3 2 = Inr (1, 0)"
  by (rule small_population_thresholds) simp_all

lemma example_keys: "partition_keys (\<lambda>s j. (real j + 1) / 4) 0 0 [''a'', ''b'', ''c''] = [1 / 4, 1 / 2, 3 / 4]"
  by (simp add: partition_keys_def upt_rec)

lemma example_first_pass: "select_train_test_ad_events (\<lambda>s j. (real j + 1) / 4) 0 [''a'', ''b'', ''c''] 1 0 1 0 0
     \<lparr>train_accepted_items = 0, test_accepted_items = 0, train_waitlist = []\<rparr>
   = ([1 / 4, 1 / 2, 3 / 4], \<lparr>train_accepted_items = 0, test_accepted_items = 0, train_waitlist = [1 / 4, 1 / 2, 3 / 4]\<rparr>)"
  by (simp add: select_train_test_ad_events_def example_keys)

lemma example_train_thresholds: "compute_acceptance_rejection_thresholds 1 [1 / 4, 1 / 2, 3 / 4] 1 0 = Inr (1 / 2, 1 / 4)"
  by (simp add: compute_acceptance_rejection_thresholds_def nsmallest_def Let_def numeral_2_eq_2)

lemma example_test_thresholds: "compute_acceptance_rejection_thresholds 2 [1 / 4, 1 / 2, 3 / 4] 1 0 = Inr (3 / 4, 1 / 2)"
  by (simp add: compute_acceptance_rejection_thresholds_def nsmallest_def Let_def numeral_3_eq_3)

lemma example_split_thresholds: "split_thresholds (\<lambda>s j. (real j + 1) / 4) 0 1 1 [[''a'', ''b'', ''c'']] = Inr (1 / 2, 1 / 4, 3 / 4)"
  by (simp add: split_thresholds_def py_round_def rescaled_sizes_def selection_thresholds_3_1 selection_thresholds_3_2 example_first_pass py_int_def example_train_thresholds example_test_thresholds)

lemma example_run: "sample_train_test_split (\<lambda>s j. (real j + 1) / 4) 0 1 1 [[''a'', ''b'', ''c'']] = Inr ([[''a'']], [[''b'']])"
  by (simp add: sample_train_test_split_def example_split_thresholds map_partitions_with_index_def filter_ad_events_def
      example_keys py_round_def passes_def)

text \<open>
  Claim C10, as stated, fails in its second half: for no generator, clock, sizes and input
  is there a record whose key passes both the train output filter and the test output
  filter with the thresholds that the driver computes.
\<close>

theorem train_test_overlap_counterexample:
  "\<not> (\<exists>(rng :: int \<Rightarrow> nat \<Rightarrow> real) now train_size test_size (input_logs :: string list list)
        train_upper test_lower test_upper idx j.
        split_thresholds rng now train_size test_size input_logs
          = Inr (train_upper, test_lower, test_upper)
        \<and> idx < length input_logs \<and> j < length (input_logs ! idx)
        \<and> passes (rng (py_round now + int idx) j) MinusInfinity train_upper
        \<and> passes (rng (py_round now + int idx) j) (Finite test_lower) test_upper)"
  using split_thresholds_no_shared_key by blast

text \<open>
  Claim C10, amended. Train and test membership are decided against the same key of a
  record, with no offsets: the train output holds the rows whose key is below the train
  upper threshold, the test output the rows whose key is strictly between the test lower
  and the test upper threshold. The test lower threshold is the rejection threshold of
  the train set, so no record passes both filters, and on pairwise distinct records the
  two outputs share no record.
\<close>

theorem train_test_outputs_disjoint:
  assumes "sample_train_test_split rng now train_size test_size input_logs = Inr (train, test)"
  shows "\<exists>train_upper test_lower test_upper.
      split_thresholds rng now train_size test_size input_logs
        = Inr (train_upper, test_lower, test_upper)
      \<and> train = map_partitions_with_index
          (\<lambda>idx x. filter_ad_events rng idx x MinusInfinity train_upper (py_round now)) input_logs
      \<and> test = map_partitions_with_index
          (\<lambda>idx x. filter_ad_events rng idx x (Finite test_lower) test_upper (py_round now)) input_logs
      \<and> (\<forall>idx j. idx < length input_logs \<and> j < length (input_logs ! idx) \<longrightarrow>
            \<not> (passes (rng (py_round now + int idx) j) MinusInfinity train_upper
               \<and> passes (rng (py_round now + int idx) j) (Finite test_lower) test_upper))
      \<and> (distinct (concat input_logs) \<longrightarrow> set (concat train) \<inter> set (concat test) = {})"
proof -
  from assms obtain tup tlo top where
    thr: "split_thresholds rng now train_size test_size input_logs = Inr (tup, tlo, top)"
    and tr: "train = map_partitions_with_index
          (\<lambda>idx x. filter_ad_events rng idx x MinusInfinity tup (py_round now)) input_logs"
    and te: "test = map_partitions_with_index
          (\<lambda>idx x. filter_ad_events rng idx x (Finite tlo) top (py_round now)) input_logs"
    by (auto simp: sample_train_test_split_def split: sum.splits)
  have no: "\<not> (passes (rng (py_round now + int idx) j) MinusInfinity tup
               \<and> passes (rng (py_round now + int idx) j) (Finite tlo) top)"
    if "idx < length input_logs" "j < length (input_logs ! idx)" for idx j
    using split_thresholds_no_shared_key [OF thr that] .
  have "set (concat train) \<inter> set (concat test) = {}" if d: "distinct (concat input_logs)"
  proof (rule ccontr)
    assume "set (concat train) \<inter> set (concat test) \<noteq> {}"
    then obtain r where r: "r \<in> set (concat train)" "r \<in> set (concat test)" by blast
    from map_partitions_member [OF r(1) [unfolded tr]] obtain i where
      i: "i < length input_logs"
         "r \<in> set (filter_ad_events rng (int i) (input_logs ! i) MinusInfinity tup (py_round now))"
      by blast
    from filter_ad_events_member [OF i(2)] obtain j where
      j: "j < length (input_logs ! i)" "r = input_logs ! i ! j"
         "passes (rng (py_round now + int i) j) MinusInfinity tup"
      by blast
    from map_partitions_member [OF r(2) [unfolded te]] obtain i' where
      i': "i' < length input_logs"
         "r \<in> set (filter_ad_events rng (int i') (input_logs ! i') (Finite tlo) top (py_round now))"
      by blast
    from filter_ad_events_member [OF i'(2)] obtain j' where
      j': "j' < length (input_logs ! i')" "r = input_logs ! i' ! j'"
         "passes (rng (py_round now + int i') j') (Finite tlo) top"
      by blast
    from distinct_concat_position [OF d i(1) i'(1) j(1) j'(1)] j(2) j'(2)
    have "i = i'" "j = j'" by simp_all
    with no [OF i(1) j(1)] j(3) j'(3) show False by simp
  qed
  with thr tr te no show ?thesis by blast
qed

theorem train_test_outputs_disjoint_witness:
  "sample_train_test_split (\<lambda>s j. (real j + 1) / 4) 0 1 1 [[''a'', ''b'', ''c'']]
     = Inr ([[''a'']], [[''b'']])
   \<and> distinct (concat [[''a'', ''b'', ''c'']])
   \<and> set (concat [[''a'']]) \<inter> set (concat [[''b'']]) = {}"
  using train_test_outputs_disjoint [OF example_run] example_run by simp

end
